theory Spec2Isabelle
  imports Complex_Main "HOL-Library.Multiset" "HOL-Library.Sublist"
begin

chapter \<open>The program\<close>

section \<open>Outcomes\<close>

text \<open>
  The Python exceptions the module can raise, as values. \<open>NonFinite\<close> is not an
  exception: it marks the places where numpy's true division would divide by zero and
  continue with \<open>nan\<close> or \<open>inf\<close> (a RuntimeWarning, no exception). The model stops there
  with this outcome, and \<open>metrics_never_NonFinite\<close> shows the branch is never taken.
\<close>

datatype failure = ValueError | TypeError | KeyError | IndexError | ImportError
  | AttributeError | LoadError | NonFinite

section \<open>Threshold metrics\<close>

text \<open>
  Floating point is abstracted to exact rationals: \<open>p\<close>, the observations and the
  metric values are \<open>rat\<close>. Python's \<open>int(x)\<close> truncates toward zero.
\<close>

definition py_int :: "rat \<Rightarrow> int" where
  "py_int x = (if 0 \<le> x then \<lfloor>x\<rfloor> else \<lceil>x\<rceil>)"

definition num_ones :: "rat \<Rightarrow> nat \<Rightarrow> int" where
  "num_ones p n = py_int ((p / 100) * of_nat n)"

definition targeting_vector :: "int \<Rightarrow> int \<Rightarrow> rat list" where
  "targeting_vector k z = replicate (nat k) 1 @ replicate (nat z) 0"

text \<open>
  \<open>ndarray.argsort()\<close> is numpy's, not this repository's: it is a parameter \<open>srt\<close> of the
  model. Its contract: the result is a permutation of the positions that puts the values
  in non-decreasing order. How ties are ordered is left open (numpy's default kind is
  not a stable sort).
\<close>

definition argsort_ok :: "(rat list \<Rightarrow> nat list) \<Rightarrow> bool" where
  "argsort_ok srt \<longleftrightarrow>
     (\<forall>xs. mset (srt xs) = mset [0..<length xs] \<and> sorted (map ((!) xs) (srt xs)))"

text \<open>One argsort that meets the contract: the stable one (ties keep their order).\<close>

definition argsort_stable :: "rat list \<Rightarrow> nat list" where
  "argsort_stable xs = sort_key ((!) xs) [0..<length xs]"

text \<open>Another: ties come out in reverse order of position.\<close>

definition argsort_rev :: "rat list \<Rightarrow> nat list" where
  "argsort_rev xs = sort_key ((!) xs) (rev [0..<length xs])"

text \<open>\<open>a[:, idx]\<close> on one row of the array: the columns in the order \<open>idx\<close>.\<close>

definition take_cols :: "nat list \<Rightarrow> 'a list \<Rightarrow> 'a list" where
  "take_cols idx row = map ((!) row) idx"

text \<open>
  \<open>sklearn.metrics.confusion_matrix(y_true, y_pred)\<close> with no \<open>labels\<close>: the labels are
  the sorted distinct values of both vectors, entry \<open>(i, j)\<close> counts the positions with
  true label \<open>i\<close> and predicted label \<open>j\<close>; \<open>ravel\<close> lists the entries row by row.
\<close>

definition unique_labels :: "rat list \<Rightarrow> rat list \<Rightarrow> rat list" where
  "unique_labels y_true y_pred = sort (remdups (y_true @ y_pred))"

definition count_pairs :: "rat list \<Rightarrow> rat list \<Rightarrow> rat \<Rightarrow> rat \<Rightarrow> nat" where
  "count_pairs y_true y_pred t q = length (filter (\<lambda>c. c = (t, q)) (zip y_true y_pred))"

definition confusion_matrix :: "rat list \<Rightarrow> rat list \<Rightarrow> nat list list" where
  "confusion_matrix y_true y_pred =
     (let labels = unique_labels y_true y_pred
      in map (\<lambda>t. map (\<lambda>q. count_pairs y_true y_pred t q) labels) labels)"

definition ravel :: "'a list list \<Rightarrow> 'a list" where
  "ravel m = concat m"

text \<open>\<open>tn, fp, fn, tp = ...\<close>: unpacking anything but four values raises ValueError.\<close>

fun unpack4 :: "'a list \<Rightarrow> failure + ('a \<times> 'a \<times> 'a \<times> 'a)" where
  "unpack4 [a, b, c, d] = Inr (a, b, c, d)"
| "unpack4 _ = Inl ValueError"

text \<open>
  Lines 54 to 67 of \<open>metrics\<close>: the validation of \<open>p\<close>, the targeting vector, the two
  sorts with the two overwritten rows, and the ravelled confusion matrix.
  \<open>np.ones\<close> and \<open>np.zeros\<close> raise ValueError on a negative size, \<open>np.vstack\<close> on rows
  of different lengths.
\<close>

definition targeting_rows :: "(rat list \<Rightarrow> nat list) \<Rightarrow> rat list \<Rightarrow> rat list \<Rightarrow> rat
    \<Rightarrow> failure + (rat list \<times> rat list)" where
  "targeting_rows srt a1 a2 p =
     (if p = 0 \<or> p = 100 then Inl ValueError
      else
        let k = num_ones p (length a1);
            num_zeros = int (length a1) - k
        in if k < 0 \<or> num_zeros < 0 then Inl ValueError
           else
             let tv = targeting_vector k num_zeros
             in if length a2 \<noteq> length a1 then Inl ValueError
                else
                  let i1 = srt a1;
                      row0 = take_cols i1 a1;
                      row1 = take_cols i1 a2;
                      row0 = tv;
                      i2 = srt row1;
                      row0 = take_cols i2 row0;
                      row1 = take_cols i2 row1;
                      row1 = tv
                  in Inr (row0, row1))"

definition confusion_ravel :: "(rat list \<Rightarrow> nat list) \<Rightarrow> rat list \<Rightarrow> rat list \<Rightarrow> rat
    \<Rightarrow> failure + nat list" where
  "confusion_ravel srt a1 a2 p =
     (case targeting_rows srt a1 a2 p of
        Inl e \<Rightarrow> Inl e
      | Inr (row0, row1) \<Rightarrow> Inr (ravel (confusion_matrix row0 row1)))"

definition confusion_counts :: "(rat list \<Rightarrow> nat list) \<Rightarrow> rat list \<Rightarrow> rat list \<Rightarrow> rat
    \<Rightarrow> failure + (nat \<times> nat \<times> nat \<times> nat)" where
  "confusion_counts srt a1 a2 p =
     (case confusion_ravel srt a1 a2 p of
        Inl e \<Rightarrow> Inl e
      | Inr c \<Rightarrow> unpack4 c)"

text \<open>True division of two counts; a zero divisor is the outcome \<open>NonFinite\<close>.\<close>

definition np_div :: "nat \<Rightarrow> nat \<Rightarrow> failure + rat" where
  "np_div a b = (if b = 0 then Inl NonFinite else Inr (of_nat a / of_nat b))"

record metric_tuple =
  accuracy :: rat
  precision :: rat
  recall :: rat
  tpr :: rat
  fpr :: rat

definition metrics :: "(rat list \<Rightarrow> nat list) \<Rightarrow> rat list \<Rightarrow> rat list \<Rightarrow> rat
    \<Rightarrow> failure + metric_tuple" where
  "metrics srt a1 a2 p =
     (case confusion_counts srt a1 a2 p of
        Inl e \<Rightarrow> Inl e
      | Inr (tn, fp, fn, tp) \<Rightarrow>
          (case np_div (tp + tn) (tp + tn + fp + fn) of
             Inl e \<Rightarrow> Inl e
           | Inr acc \<Rightarrow>
               (case np_div tp (tp + fp) of
                  Inl e \<Rightarrow> Inl e
                | Inr prec \<Rightarrow>
                    (case np_div tp (tp + fn) of
                       Inl e \<Rightarrow> Inl e
                     | Inr rec \<Rightarrow>
                         (case np_div fp (fp + tn) of
                            Inl e \<Rightarrow> Inl e
                          | Inr f \<Rightarrow>
                              Inr \<lparr>accuracy = acc, precision = prec, recall = rec,
                                   tpr = rec, fpr = f\<rparr>)))))"

section \<open>AUC aggregator\<close>

text \<open>
  Modelled from the spec: \<open>strictly_increasing\<close> of \<open>helpers/utils.py\<close>, which is not
  under \<open>src/\<close>. The specification says the loop repeats "until strictly increasing":
  every element is less than its successor.
\<close>

definition strictly_increasing :: "rat list \<Rightarrow> bool" where
  "strictly_increasing L = list_all (\<lambda>(x, y). x < y) (zip L (tl L))"

text \<open>
  \<open>np.linspace(start, stop, num)\<close>: \<open>num\<close> evenly spaced points from \<open>start\<close> to \<open>stop\<close>,
  both included; \<open>[:-1]\<close> drops the last one.
\<close>

definition linspace :: "rat \<Rightarrow> rat \<Rightarrow> nat \<Rightarrow> rat list" where
  "linspace start stop num =
     map (\<lambda>i. start + of_nat i * ((stop - start) / of_nat (num - 1))) [0..<num]"

definition grid :: "rat list" where
  "grid = butlast (linspace 1 100 99)"

text \<open>A list comprehension over a function that may raise stops at the first exception.\<close>

fun collect :: "('p \<Rightarrow> failure + 'm) \<Rightarrow> 'p list \<Rightarrow> failure + 'm list" where
  "collect f [] = Inr []"
| "collect f (p # ps) =
     (case f p of
        Inl e \<Rightarrow> Inl e
      | Inr m \<Rightarrow> (case collect f ps of Inl e \<Rightarrow> Inl e | Inr ms \<Rightarrow> Inr (m # ms)))"

text \<open>
  One pass of the loop body: the positions \<open>j \<ge> 1\<close> whose fpr is not above that of the
  position before, and a list without the positions to remove.
\<close>

definition to_remove :: "rat list \<Rightarrow> nat list" where
  "to_remove fprs = filter (\<lambda>j. fprs ! j \<le> fprs ! (j - 1)) [1..<length fprs]"

definition keep :: "nat list \<Rightarrow> 'a list \<Rightarrow> 'a list" where
  "keep rm xs = map ((!) xs) (filter (\<lambda>i. i \<notin> set rm) [0..<length xs])"

text \<open>
  The \<open>while\<close> loop. It is written as a partial function: \<open>None\<close> stands for a loop that
  never exits, and that it always exits is a theorem below.
\<close>

partial_function (option) monotonize :: "rat list \<Rightarrow> rat list \<Rightarrow> (rat list \<times> rat list) option" where
  "monotonize fprs tprs =
     (if strictly_increasing fprs then Some (fprs, tprs)
      else let rm = to_remove fprs in monotonize (keep rm fprs) (keep rm tprs))"

declare monotonize.simps [code]

text \<open>
  \<open>sklearn.metrics.auc(x, y)\<close>: ValueError on different lengths or fewer than two points;
  the area by the trapezoidal rule \<open>np.trapz(y, x)\<close>, negated when \<open>x\<close> is decreasing;
  ValueError when \<open>x\<close> is neither increasing nor decreasing.
\<close>

definition trapezoid :: "rat list \<Rightarrow> rat list \<Rightarrow> rat" where
  "trapezoid y x = (\<Sum>i\<leftarrow>[0..<length x - 1]. (x ! (i + 1) - x ! i) * (y ! (i + 1) + y ! i) / 2)"

definition auc :: "rat list \<Rightarrow> rat list \<Rightarrow> failure + rat" where
  "auc x y =
     (if length x \<noteq> length y then Inl ValueError
      else if length x < 2 then Inl ValueError
      else
        let dx = map (\<lambda>i. x ! (i + 1) - x ! i) [0..<length x - 1]
        in if list_ex (\<lambda>d. d < 0) dx
           then (if list_all (\<lambda>d. d \<le> 0) dx then Inr (- trapezoid y x) else Inl ValueError)
           else Inr (trapezoid y x))"

text \<open>
  \<open>auc_overall\<close>. The result is \<open>None\<close> if the loop does not exit, otherwise the
  exception raised or the value returned. \<open>fprs[0] = 0\<close> raises IndexError on an empty
  list.
\<close>

definition auc_overall :: "(rat list \<Rightarrow> nat list) \<Rightarrow> rat list \<Rightarrow> rat list
    \<Rightarrow> (failure + rat) option" where
  "auc_overall srt a1 a2 =
     (case collect (metrics srt a1 a2) grid of
        Inl e \<Rightarrow> Some (Inl e)
      | Inr metrics_grid \<Rightarrow>
          let tprs = map tpr metrics_grid;
              fprs = map fpr metrics_grid
          in if fprs = [] then Some (Inl IndexError)
             else
               let fprs = fprs[0 := 0];
                   tprs = tprs[0 := 0];
                   fprs = fprs @ [1];
                   tprs = tprs @ [1]
               in (case monotonize fprs tprs of
                     None \<Rightarrow> None
                   | Some (fprs, tprs) \<Rightarrow> Some (auc fprs tprs)))"

section \<open>Tables\<close>

text \<open>
  A pandas DataFrame, as far as the two transformers look at it: an ordered list of
  named columns. A column is a float64 column (\<open>None\<close> is NaN, the missing value), an
  int64 column (which cannot hold a missing value) or an object column of strings
  (\<open>None\<close> is missing). Other dtypes are not modelled. The specification's data model
  makes a table a mapping from column names to columns, so the theorems assume the names
  distinct.
\<close>

datatype column = FloatCol "rat option list" | IntCol "int list" | ObjCol "string option list"

type_synonym table = "(string \<times> column) list"

definition column_names :: "table \<Rightarrow> string list" where
  "column_names X = map fst X"

fun nrows :: "column \<Rightarrow> nat" where
  "nrows (FloatCol xs) = length xs"
| "nrows (IntCol xs) = length xs"
| "nrows (ObjCol xs) = length xs"

text \<open>\<open>isna()\<close> of a column, cell by cell.\<close>

fun isna_col :: "column \<Rightarrow> bool list" where
  "isna_col (FloatCol xs) = map (\<lambda>x. x = None) xs"
| "isna_col (IntCol xs) = map (\<lambda>_. False) xs"
| "isna_col (ObjCol xs) = map (\<lambda>x. x = None) xs"

section \<open>DropMissing\<close>

text \<open>
  \<open>X.isna().mean()\<close>: the share of missing cells of each column; the mean of no rows is
  NaN (\<open>None\<close>), and every comparison with NaN is false.
\<close>

definition mean_bool :: "bool list \<Rightarrow> rat option" where
  "mean_bool bs = (if bs = [] then None
                   else Some (of_nat (length (filter id bs)) / of_nat (length bs)))"

definition missing_frac_of :: "table \<Rightarrow> (string \<times> rat option) list" where
  "missing_frac_of X = map (\<lambda>(name, col). (name, mean_bool (isna_col col))) X"

definition nan_gt :: "rat option \<Rightarrow> rat \<Rightarrow> bool" where
  "nan_gt m t = (case m of None \<Rightarrow> False | Some v \<Rightarrow> v > t)"

definition nan_le :: "rat option \<Rightarrow> rat \<Rightarrow> bool" where
  "nan_le m t = (case m of None \<Rightarrow> False | Some v \<Rightarrow> v \<le> t)"

text \<open>
  The fitted transformer. The threshold is the configured number; a transformer built
  without a threshold is not modelled.
\<close>

record drop_missing =
  threshold :: rat
  missing_frac :: "(string \<times> rat option) list"
  cols_to_drop :: "string list"
  cols_to_keep :: "string list"

definition dm_fit :: "rat \<Rightarrow> table \<Rightarrow> drop_missing" where
  "dm_fit t X =
     (let missing = missing_frac_of X
      in \<lparr>threshold = t,
          missing_frac = missing,
          cols_to_drop = map fst (filter (\<lambda>(name, m). nan_gt m t) missing),
          cols_to_keep = map fst (filter (\<lambda>(name, m). nan_le m t) missing)\<rparr>)"

text \<open>
  \<open>X.drop(labels, axis=1)\<close>: KeyError when a label names no column, otherwise the table
  without the columns named.
\<close>

definition drop_columns :: "string list \<Rightarrow> table \<Rightarrow> failure + table" where
  "drop_columns labels X =
     (if \<exists>l\<in>set labels. l \<notin> set (column_names X) then Inl KeyError
      else Inr (filter (\<lambda>(name, col). name \<notin> set labels) X))"

definition dm_transform :: "drop_missing \<Rightarrow> table \<Rightarrow> failure + table" where
  "dm_transform self X = drop_columns (cols_to_drop self) X"

section \<open>Winsorizer\<close>

text \<open>
  The configured \<open>limits\<close>: unset, one float \<open>f\<close>, or a pair. \<open>fit\<close> replaces the first by
  \<open>(0.01, 0.99)\<close> and the second by \<open>(f, 1 - f)\<close>.
\<close>

datatype limits_cfg = Unset | Frac rat | Pair rat rat

fun resolve_limits :: "limits_cfg \<Rightarrow> rat \<times> rat" where
  "resolve_limits Unset = (1 / 100, 99 / 100)"
| "resolve_limits (Frac f) = (f, 1 - f)"
| "resolve_limits (Pair l h) = (l, h)"

fun is_numeric_dtype :: "column \<Rightarrow> bool" where
  "is_numeric_dtype (FloatCol _) = True"
| "is_numeric_dtype (IntCol _) = True"
| "is_numeric_dtype (ObjCol _) = False"

text \<open>
  \<open>Series.quantile\<close> with pandas' default linear interpolation, on the values that are
  not missing: position \<open>q * (n - 1)\<close> in the sorted values, interpolated between its
  two neighbours; NaN when there is no value; ValueError for a \<open>q\<close> outside \<open>[0, 1]\<close>.
\<close>

fun non_missing :: "column \<Rightarrow> rat list" where
  "non_missing (FloatCol xs) = map the (filter (\<lambda>x. x \<noteq> None) xs)"
| "non_missing (IntCol xs) = map of_int xs"
| "non_missing (ObjCol xs) = []"

definition quantile :: "rat list \<Rightarrow> rat \<Rightarrow> rat option" where
  "quantile vals q =
     (if vals = [] then None
      else
        let s = sort vals;
            idx = q * of_nat (length s - 1);
            lo = nat \<lfloor>idx\<rfloor>;
            hi = min (lo + 1) (length s - 1);
            g = idx - of_int \<lfloor>idx\<rfloor>
        in Some (s ! lo + g * (s ! hi - s ! lo)))"

definition series_quantile :: "column \<Rightarrow> rat \<times> rat \<Rightarrow> failure + (rat option \<times> rat option)" where
  "series_quantile col qs =
     (case qs of (l, h) \<Rightarrow>
        if 0 \<le> l \<and> l \<le> 1 \<and> 0 \<le> h \<and> h \<le> 1
        then Inr (quantile (non_missing col) l, quantile (non_missing col) h)
        else Inl ValueError)"

text \<open>
  The fitted transformer; \<open>columns_fit\<close> and \<open>threshold_dict_fit\<close> stand for the
  attributes \<open>columns_\<close> and \<open>threshold_dict_\<close>. The latter is a dict in insertion order;
  with distinct column names no key is assigned twice.
\<close>

record winsorizer =
  limits :: "rat \<times> rat"
  columns_fit :: "string list"
  threshold_dict_fit :: "(string \<times> rat option \<times> rat option) list"

fun fit_columns :: "rat \<times> rat \<Rightarrow> table \<Rightarrow> failure + (string \<times> rat option \<times> rat option) list" where
  "fit_columns qs [] = Inr []"
| "fit_columns qs ((column, col) # rest) =
     (case series_quantile col qs of
        Inl e \<Rightarrow> Inl e
      | Inr (low, high) \<Rightarrow>
          (case fit_columns qs rest of
             Inl e \<Rightarrow> Inl e
           | Inr d \<Rightarrow> Inr ((column, low, high) # d)))"

definition ws_fit :: "limits_cfg \<Rightarrow> table \<Rightarrow> failure + winsorizer" where
  "ws_fit cfg X =
     (let qs = resolve_limits cfg;
          columns = filter (\<lambda>(c, col). is_numeric_dtype col) X
      in case fit_columns qs columns of
           Inl e \<Rightarrow> Inl e
         | Inr threshold_dict \<Rightarrow>
             Inr \<lparr>limits = qs, columns_fit = map fst columns, threshold_dict_fit = threshold_dict\<rparr>)"

text \<open>
  The cells \<open>trim\<close> sees: an integer, a float, or NaN. The bounds are floats (or NaN, for
  a column without values). Every comparison with NaN is false.
\<close>

datatype scalar = IntV int | FloatV rat | NaN

fun sval :: "scalar \<Rightarrow> rat option" where
  "sval (IntV i) = Some (of_int i)"
| "sval (FloatV r) = Some r"
| "sval NaN = None"

definition s_lt :: "scalar \<Rightarrow> scalar \<Rightarrow> bool" where
  "s_lt a b = (case (sval a, sval b) of (Some x, Some y) \<Rightarrow> x < y | _ \<Rightarrow> False)"

definition s_gt :: "scalar \<Rightarrow> scalar \<Rightarrow> bool" where
  "s_gt a b = (case (sval a, sval b) of (Some x, Some y) \<Rightarrow> x > y | _ \<Rightarrow> False)"

definition trim :: "scalar \<Rightarrow> scalar \<Rightarrow> scalar \<Rightarrow> scalar" where
  "trim x low high =
     (if x = NaN then x
      else
        let x = (if s_lt x low then low else x);
            x = (if s_gt x high then high else x)
        in x)"

fun bound :: "rat option \<Rightarrow> scalar" where
  "bound None = NaN"
| "bound (Some r) = FloatV r"

fun float_cell :: "rat option \<Rightarrow> scalar" where
  "float_cell None = NaN"
| "float_cell (Some r) = FloatV r"

text \<open>
  \<open>np.vectorize(trim)\<close> without \<open>otypes\<close>: ValueError on an input of size 0; the dtype of
  the output is the type of the first result, and every result is cast to it. A float
  cast to int64 is truncated; NaN cannot be cast to an integer. On an object column
  \<open>trim\<close> returns a missing cell as it is and raises TypeError when it compares a string
  with a bound.
\<close>

fun cast_int :: "scalar \<Rightarrow> failure + int" where
  "cast_int (IntV i) = Inr i"
| "cast_int (FloatV r) = Inr (py_int r)"
| "cast_int NaN = Inl ValueError"

definition vectorize_out :: "scalar list \<Rightarrow> failure + column" where
  "vectorize_out outs =
     (case hd outs of
        IntV _ \<Rightarrow> (case collect cast_int outs of Inl e \<Rightarrow> Inl e | Inr ints \<Rightarrow> Inr (IntCol ints))
      | _ \<Rightarrow> Inr (FloatCol (map sval outs)))"

fun trim_vec :: "column \<Rightarrow> rat option \<Rightarrow> rat option \<Rightarrow> failure + column" where
  "trim_vec (FloatCol xs) low high =
     (if xs = [] then Inl ValueError
      else vectorize_out (map (\<lambda>x. trim (float_cell x) (bound low) (bound high)) xs))"
| "trim_vec (IntCol xs) low high =
     (if xs = [] then Inl ValueError
      else vectorize_out (map (\<lambda>x. trim (IntV x) (bound low) (bound high)) xs))"
| "trim_vec (ObjCol xs) low high =
     (if xs = [] then Inl ValueError
      else if \<exists>x\<in>set xs. x \<noteq> None then Inl TypeError
      else Inr (ObjCol xs))"

text \<open>
  \<open>X[column]\<close> raises KeyError for a name that is no column; \<open>X[column] = values\<close>
  replaces the column of that name where it stands, or appends a new one.
\<close>

definition getitem :: "table \<Rightarrow> string \<Rightarrow> failure + column" where
  "getitem X column = (case map_of X column of None \<Rightarrow> Inl KeyError | Some col \<Rightarrow> Inr col)"

definition setitem :: "table \<Rightarrow> string \<Rightarrow> column \<Rightarrow> table" where
  "setitem X column col =
     (if column \<in> set (column_names X)
      then map (\<lambda>(c, old). if c = column then (c, col) else (c, old)) X
      else X @ [(column, col)])"

text \<open>The loop of \<open>transform\<close> over the items of \<open>threshold_dict_fit\<close>, on the copy \<open>X_t\<close>.\<close>

fun transform_loop :: "(string \<times> rat option \<times> rat option) list \<Rightarrow> table \<Rightarrow> failure + table" where
  "transform_loop [] X_t = Inr X_t"
| "transform_loop ((column, low, high) # rest) X_t =
     (case getitem X_t column of
        Inl e \<Rightarrow> Inl e
      | Inr col \<Rightarrow>
          (case trim_vec col low high of
             Inl e \<Rightarrow> Inl e
           | Inr col' \<Rightarrow> transform_loop rest (setitem X_t column col')))"

text \<open>The table \<open>transform\<close> returns, as a function of the table it is given.\<close>

definition ws_transform :: "winsorizer \<Rightarrow> table \<Rightarrow> failure + table" where
  "ws_transform self X = (let X_t = X in transform_loop (threshold_dict_fit self) X_t)"

text \<open>
  The same with the objects made explicit. A heap maps references to tables;
  \<open>pd.DataFrame(X)\<close> and \<open>X.copy()\<close> each allocate a new object, and every
  \<open>X_t[column] = ...\<close> writes to the object \<open>X_t\<close> refers to.
\<close>

record heap =
  objs :: "nat \<Rightarrow> table"
  next_ref :: nat

definition alloc :: "heap \<Rightarrow> table \<Rightarrow> heap \<times> nat" where
  "alloc h t = (h\<lparr>objs := (objs h)(next_ref h := t), next_ref := next_ref h + 1\<rparr>, next_ref h)"

fun transform_loop_heap :: "(string \<times> rat option \<times> rat option) list \<Rightarrow> heap \<Rightarrow> nat
    \<Rightarrow> heap \<times> failure option" where
  "transform_loop_heap [] h X_t = (h, None)"
| "transform_loop_heap ((column, low, high) # rest) h X_t =
     (case getitem (objs h X_t) column of
        Inl e \<Rightarrow> (h, Some e)
      | Inr col \<Rightarrow>
          (case trim_vec col low high of
             Inl e \<Rightarrow> (h, Some e)
           | Inr col' \<Rightarrow>
               transform_loop_heap rest
                 (h\<lparr>objs := (objs h)(X_t := setitem (objs h X_t) column col')\<rparr>) X_t))"

definition ws_transform_heap :: "winsorizer \<Rightarrow> heap \<Rightarrow> nat \<Rightarrow> heap \<times> (failure + nat)" where
  "ws_transform_heap self h X =
     (let (h, X) = alloc h (objs h X);
          (h, X_t) = alloc h (objs h X)
      in case transform_loop_heap (threshold_dict_fit self) h X_t of
           (h, Some e) \<Rightarrow> (h, Inl e)
         | (h, None) \<Rightarrow> (h, Inr X_t))"

text \<open>What \<open>trim\<close> does to a float that is not missing, given the two bounds.\<close>

definition clip :: "rat option \<Rightarrow> rat option \<Rightarrow> rat \<Rightarrow> rat" where
  "clip low high v =
     (let v1 = (case low of Some l \<Rightarrow> if v < l then l else v | None \<Rightarrow> v)
      in case high of Some h \<Rightarrow> if v1 > h then h else v1 | None \<Rightarrow> v1)"

text \<open>The column \<open>transform\<close> puts in the place of a numeric column it was fitted on.\<close>

definition trimmed :: "rat \<Rightarrow> rat \<Rightarrow> column \<Rightarrow> column" where
  "trimmed l h c =
     (case trim_vec c (quantile (non_missing c) l) (quantile (non_missing c) h) of
        Inr c' \<Rightarrow> c'
      | Inl e \<Rightarrow> c)"

text \<open>Every column of the table has at least one row.\<close>

definition nonempty_rows :: "table \<Rightarrow> bool" where
  "nonempty_rows X = list_all (\<lambda>(name, col). 0 < nrows col) X"

section \<open>Loading a model\<close>














chapter \<open>Its properties\<close>

section \<open>Threshold metrics\<close>

subsection \<open>Facts about the targeting vector and the sorts\<close>

lemma num_ones_bounds:
  assumes "0 < p" "p < 100"
  shows "0 \<le> num_ones p n" "num_ones p n \<le> int n" "0 < n \<Longrightarrow> num_ones p n < int n"
proof -
  let ?x = "(p / 100) * of_nat n"
  have x0: "0 \<le> ?x" using assms by simp
  have k: "num_ones p n = \<lfloor>?x\<rfloor>" using x0 by (simp add: num_ones_def py_int_def)
  show "0 \<le> num_ones p n" using x0 k by simp
  have "p / 100 \<le> 1" using assms by simp
  hence "?x \<le> 1 * of_nat n" by (intro mult_right_mono) simp_all
  hence "\<lfloor>?x\<rfloor> \<le> \<lfloor>(of_nat n :: rat)\<rfloor>" by (intro floor_mono) simp
  thus "num_ones p n \<le> int n" using k by simp
  show "num_ones p n < int n" if "0 < n"
  proof -
    have "p / 100 < 1" using assms by simp
    hence "?x < 1 * of_nat n" using that by (intro mult_strict_right_mono) simp_all
    hence "?x < of_int (int n)" by simp
    hence "\<lfloor>?x\<rfloor> < int n" by (simp only: floor_less_iff)
    thus ?thesis using k by simp
  qed
qed

lemma num_ones_pos_iff:
  assumes "0 < p"
  shows "1 \<le> num_ones p n \<longleftrightarrow> 100 \<le> p * of_nat n"
proof -
  let ?x = "(p / 100) * of_nat n"
  have x0: "0 \<le> ?x" using assms by simp
  have k: "num_ones p n = \<lfloor>?x\<rfloor>" using x0 by (simp add: num_ones_def py_int_def)
  have "1 \<le> \<lfloor>?x\<rfloor> \<longleftrightarrow> 1 \<le> ?x" by (simp add: le_floor_iff)
  also have "\<dots> \<longleftrightarrow> 100 \<le> p * of_nat n" by (simp add: field_simps)
  finally show ?thesis using k by simp
qed

lemma argsort_ok_length: "argsort_ok srt \<Longrightarrow> length (srt xs) = length xs"
  unfolding argsort_ok_def by (metis length_upt minus_nat.diff_0 size_mset)

lemma take_cols_perm:
  assumes "mset idx = mset [0..<length row]"
  shows "mset (take_cols idx row) = mset row"
proof -
  have "mset (map ((!) row) idx) = image_mset ((!) row) (mset idx)" by simp
  also have "\<dots> = mset (map ((!) row) [0..<length row])" using assms by simp
  also have "\<dots> = mset row" by (simp add: map_nth)
  finally show ?thesis by (simp add: take_cols_def)
qed


lemma argsort_rev_ok: "argsort_ok argsort_rev"
  by (simp add: argsort_ok_def argsort_rev_def)

subsection \<open>Facts about the confusion matrix\<close>

lemma count_pairs_count: "count_pairs yt yp t q = count (mset (zip yt yp)) (t, q)"
proof -
  have "(\<lambda>c. c = (t, q)) = ((=) (t, q))" by auto
  thus ?thesis by (simp add: count_pairs_def count_mset count_list_eq_length_filter)
qed

lemma sum_list_concat_nat: "sum_list (concat xss) = (\<Sum>xs\<leftarrow>xss. sum_list (xs::nat list))"
  by (induction xss) simp_all

lemma unique_labels_props:
  "distinct (unique_labels yt yp)" "sorted (unique_labels yt yp)"
  "set (unique_labels yt yp) = set yt \<union> set yp"
  by (simp_all add: unique_labels_def)

lemma confusion_matrix_sum:
  "sum_list (ravel (confusion_matrix yt yp)) = length (zip yt yp)"
proof -
  let ?L = "unique_labels yt yp" and ?M = "mset (zip yt yp)"
  have sub: "set_mset ?M \<subseteq> set ?L \<times> set ?L"
    by (auto simp: unique_labels_props dest: set_zip_leftD set_zip_rightD)
  have "sum_list (ravel (confusion_matrix yt yp)) = (\<Sum>t\<leftarrow>?L. \<Sum>q\<leftarrow>?L. count ?M (t, q))"
    by (simp add: ravel_def confusion_matrix_def Let_def sum_list_concat_nat o_def count_pairs_count)
  also have "\<dots> = (\<Sum>t\<in>set ?L. \<Sum>q\<in>set ?L. count ?M (t, q))"
    by (simp add: sum_list_distinct_conv_sum_set unique_labels_props)
  also have "\<dots> = (\<Sum>c\<in>set ?L \<times> set ?L. count ?M c)"
    by (simp add: sum.cartesian_product)
  also have "\<dots> = (\<Sum>c\<in>set_mset ?M. count ?M c)"
    using sub by (intro sum.mono_neutral_right) (auto simp: not_in_iff)
  also have "\<dots> = size ?M" by (simp add: size_multiset_overloaded_eq)
  finally show ?thesis by simp
qed

lemma count_pairs_true_split:
  assumes "length yt = length yp" "set yt \<subseteq> {a, b}" "a \<noteq> b"
  shows "count_pairs yt yp a q + count_pairs yt yp b q = length (filter (\<lambda>y. y = q) yp)"
  using assms by (induction yt yp rule: list_induct2) (auto simp: count_pairs_def)

lemma count_pairs_pred_split:
  assumes "length yt = length yp" "set yp \<subseteq> {a, b}" "a \<noteq> b"
  shows "count_pairs yt yp t a + count_pairs yt yp t b = length (filter (\<lambda>y. y = t) yt)"
  using assms by (induction yt yp rule: list_induct2) (auto simp: count_pairs_def)

lemma sorted_distinct_two:
  assumes "sorted L" "distinct L" "set L = {a, b}" "a < b"
  shows "L = [a, b::rat]"
proof -
  have "sorted [a, b]" "distinct [a, b]" "set [a, b] = set L" using assms by auto
  thus ?thesis using assms(1,2) by (metis sorted_distinct_set_unique)
qed

lemma sorted_distinct_one:
  assumes "distinct L" "set L = {a}"
  shows "L = [a]"
proof (cases L)
  case Nil
  thus ?thesis using assms by simp
next
  case (Cons x xs)
  have "x = a" using assms Cons by auto
  moreover have "xs = []"
  proof (cases xs)
    case (Cons y ys)
    hence "y = a" "y \<noteq> x" using assms \<open>L = x # xs\<close> by auto
    thus ?thesis using \<open>x = a\<close> by simp
  qed simp
  ultimately show ?thesis using Cons by simp
qed

lemma filter_targeting_vector:
  assumes "0 \<le> k" "0 \<le> z"
  shows "length (filter (\<lambda>y. y = 1) (targeting_vector k z)) = nat k"
        "length (filter (\<lambda>y. y = 0) (targeting_vector k z)) = nat z"
        "length (targeting_vector k z) = nat k + nat z"
  by (simp_all add: targeting_vector_def)

lemma set_targeting_vector:
  "set (targeting_vector k z) = (if 0 < k then {1} else {}) \<union> (if 0 < z then {0} else {})"
  by (auto simp: targeting_vector_def)

subsection \<open>The rows that reach the confusion matrix\<close>

lemma targeting_rows_eq:
  assumes "argsort_ok srt" "length a2 = length a1" "0 < p" "p < 100"
  shows "targeting_rows srt a1 a2 p =
           Inr (take_cols (srt (take_cols (srt a1) a2))
                  (targeting_vector (num_ones p (length a1)) (int (length a1) - num_ones p (length a1))),
                targeting_vector (num_ones p (length a1)) (int (length a1) - num_ones p (length a1)))"
  using assms num_ones_bounds[OF assms(3,4), of "length a1"]
  by (simp add: targeting_rows_def Let_def)

lemma targeting_row0_perm:
  assumes "argsort_ok srt" "length a2 = length a1" "0 \<le> k" "k \<le> int (length a1)"
  shows "mset (take_cols (srt (take_cols (srt a1) a2)) (targeting_vector k (int (length a1) - k)))
           = mset (targeting_vector k (int (length a1) - k))"
proof -
  let ?tv = "targeting_vector k (int (length a1) - k)"
  let ?r1 = "take_cols (srt a1) a2"
  have "length ?r1 = length a1" using assms(1) by (simp add: take_cols_def argsort_ok_length)
  moreover have "length ?tv = length a1" using assms(3,4) by (simp add: targeting_vector_def)
  moreover have "mset (srt ?r1) = mset [0..<length ?r1]" using assms(1) by (simp add: argsort_ok_def)
  ultimately show ?thesis by (intro take_cols_perm) simp
qed

subsection \<open>The ravelled confusion matrix, by the number of classes\<close>

lemma length_filter_mset_cong:
  "mset xs = mset ys \<Longrightarrow> length (filter P xs) = length (filter P ys)"
  by (metis mset_filter size_mset)

lemma targeting_rows_Inr:
  assumes "targeting_rows srt a1 a2 p = Inr (r0, r1)"
  shows "p \<noteq> 0" "p \<noteq> 100" "0 \<le> num_ones p (length a1)"
    "num_ones p (length a1) \<le> int (length a1)" "length a2 = length a1"
    "r1 = targeting_vector (num_ones p (length a1)) (int (length a1) - num_ones p (length a1))"
    "r0 = take_cols (srt (take_cols (srt a1) a2))
            (targeting_vector (num_ones p (length a1)) (int (length a1) - num_ones p (length a1)))"
  using assms by (auto simp: targeting_rows_def Let_def split: if_splits)

lemma targeting_rows_Inl: "targeting_rows srt a1 a2 p = Inl e \<Longrightarrow> e = ValueError"
  by (auto simp: targeting_rows_def Let_def split: if_splits)

lemma confusion_ravel_two_classes_gen:
  assumes ok: "argsort_ok srt" and rows: "targeting_rows srt a1 a2 p = Inr (r0, r1)"
    and k1: "1 \<le> num_ones p (length a1)" and klt: "num_ones p (length a1) < int (length a1)"
  shows "confusion_ravel srt a1 a2 p =
           Inr [count_pairs r0 r1 0 0, count_pairs r0 r1 0 1, count_pairs r0 r1 1 0, count_pairs r0 r1 1 1]"
    and "count_pairs r0 r1 0 0 + count_pairs r0 r1 0 1 + count_pairs r0 r1 1 0 + count_pairs r0 r1 1 1
           = length a1"
    and "count_pairs r0 r1 1 1 + count_pairs r0 r1 0 1 = nat (num_ones p (length a1))"
    and "count_pairs r0 r1 1 1 + count_pairs r0 r1 1 0 = nat (num_ones p (length a1))"
    and "count_pairs r0 r1 0 1 + count_pairs r0 r1 0 0 = length a1 - nat (num_ones p (length a1))"
    and "0 < nat (num_ones p (length a1))"
    and "nat (num_ones p (length a1)) < length a1"
proof -
  let ?n = "length a1"
  let ?k = "num_ones p ?n"
  let ?tv = "targeting_vector ?k (int ?n - ?k)"
  have kn: "?k \<le> int ?n" using klt by simp
  have len: "length a2 = length a1" and r1: "r1 = ?tv"
    and r0: "r0 = take_cols (srt (take_cols (srt a1) a2)) ?tv"
    using targeting_rows_Inr[OF rows] by simp_all
  have perm: "mset r0 = mset r1"
    using targeting_row0_perm[OF ok len, of ?k] k1 kn r0 r1 by simp
  have set_tv: "set r1 = {0, 1}" using k1 klt by (auto simp: r1 set_targeting_vector)
  have set_r0: "set r0 = {0, 1}" using perm set_tv by (metis set_mset_mset)
  have len_tv: "length r1 = ?n" using k1 klt by (simp add: r1 filter_targeting_vector(3))
  have len_r0: "length r0 = ?n" using perm len_tv by (metis size_mset)
  have "unique_labels r0 r1 = [0, 1]"
    by (rule sorted_distinct_two) (simp_all add: unique_labels_props set_tv set_r0)
  hence rav: "ravel (confusion_matrix r0 r1) =
      [count_pairs r0 r1 0 0, count_pairs r0 r1 0 1, count_pairs r0 r1 1 0, count_pairs r0 r1 1 1]"
    by (simp add: ravel_def confusion_matrix_def)
  let ?tn = "count_pairs r0 r1 0 0" and ?fp = "count_pairs r0 r1 0 1"
  let ?fn = "count_pairs r0 r1 1 0" and ?tp = "count_pairs r0 r1 1 1"
  show "confusion_ravel srt a1 a2 p = Inr [?tn, ?fp, ?fn, ?tp]"
    by (simp add: confusion_ravel_def rows rav)
  have "sum_list (ravel (confusion_matrix r0 r1)) = ?n"
    by (simp add: confusion_matrix_sum len_tv len_r0)
  thus "?tn + ?fp + ?fn + ?tp = ?n" by (simp add: rav)
  have ones_tv: "length (filter (\<lambda>y. y = 1) r1) = nat ?k"
    using k1 klt by (simp add: r1 filter_targeting_vector(1))
  have zeros_tv: "length (filter (\<lambda>y. y = 0) r1) = ?n - nat ?k"
    using k1 klt by (simp add: r1 filter_targeting_vector(2) nat_diff_distrib)
  have "?fp + ?tp = length (filter (\<lambda>y. y = 1) r1)"
    by (rule count_pairs_true_split) (simp_all add: len_tv len_r0 set_r0)
  thus "?tp + ?fp = nat ?k" using ones_tv by simp
  have "?fn + ?tp = length (filter (\<lambda>y. y = 1) r0)"
    by (rule count_pairs_pred_split) (simp_all add: len_tv len_r0 set_tv)
  thus "?tp + ?fn = nat ?k" using ones_tv length_filter_mset_cong[OF perm] by simp
  have "?tn + ?fp = length (filter (\<lambda>y. y = 0) r0)"
    by (rule count_pairs_pred_split) (simp_all add: len_tv len_r0 set_tv)
  thus "?fp + ?tn = ?n - nat ?k" using zeros_tv length_filter_mset_cong[OF perm] by simp
  show "0 < nat ?k" "nat ?k < ?n" using k1 klt by simp_all
qed

lemma confusion_ravel_two_classes:
  assumes ok: "argsort_ok srt" and len: "length a2 = length a1" and p: "0 < p" "p < 100"
    and k1: "1 \<le> num_ones p (length a1)"
    and rows: "targeting_rows srt a1 a2 p = Inr (r0, r1)"
  shows "confusion_ravel srt a1 a2 p =
           Inr [count_pairs r0 r1 0 0, count_pairs r0 r1 0 1, count_pairs r0 r1 1 0, count_pairs r0 r1 1 1]"
    and "count_pairs r0 r1 0 0 + count_pairs r0 r1 0 1 + count_pairs r0 r1 1 0 + count_pairs r0 r1 1 1
           = length a1"
    and "count_pairs r0 r1 1 1 + count_pairs r0 r1 0 1 = nat (num_ones p (length a1))"
    and "count_pairs r0 r1 1 1 + count_pairs r0 r1 1 0 = nat (num_ones p (length a1))"
    and "count_pairs r0 r1 0 1 + count_pairs r0 r1 0 0 = length a1 - nat (num_ones p (length a1))"
    and "0 < nat (num_ones p (length a1))"
    and "nat (num_ones p (length a1)) < length a1"
proof -
  have kn: "num_ones p (length a1) \<le> int (length a1)" using num_ones_bounds(2)[OF p] .
  hence "0 < length a1" using k1 by auto
  hence klt: "num_ones p (length a1) < int (length a1)" using num_ones_bounds(3)[OF p] by blast
  note g = confusion_ravel_two_classes_gen[OF ok rows k1 klt]
  show "confusion_ravel srt a1 a2 p =
           Inr [count_pairs r0 r1 0 0, count_pairs r0 r1 0 1, count_pairs r0 r1 1 0, count_pairs r0 r1 1 1]"
    and "count_pairs r0 r1 0 0 + count_pairs r0 r1 0 1 + count_pairs r0 r1 1 0 + count_pairs r0 r1 1 1
           = length a1"
    and "count_pairs r0 r1 1 1 + count_pairs r0 r1 0 1 = nat (num_ones p (length a1))"
    and "count_pairs r0 r1 1 1 + count_pairs r0 r1 1 0 = nat (num_ones p (length a1))"
    and "count_pairs r0 r1 0 1 + count_pairs r0 r1 0 0 = length a1 - nat (num_ones p (length a1))"
    and "0 < nat (num_ones p (length a1))"
    and "nat (num_ones p (length a1)) < length a1"
    using g by blast+
qed

lemma confusion_ravel_one_class:
  assumes ok: "argsort_ok srt" and len: "length a2 = length a1" and p: "0 < p" "p < 100"
    and k0: "num_ones p (length a1) = 0"
  shows "targeting_rows srt a1 a2 p = Inr (replicate (length a1) 0, replicate (length a1) 0)"
    and "confusion_ravel srt a1 a2 p = Inr (if a1 = [] then [] else [length a1])"
proof -
  let ?n = "length a1"
  let ?tv = "targeting_vector 0 (int ?n)"
  let ?r0 = "take_cols (srt (take_cols (srt a1) a2)) ?tv"
  have tv: "?tv = replicate ?n 0" by (simp add: targeting_vector_def)
  have perm: "mset ?r0 = mset ?tv"
    using targeting_row0_perm[OF ok len, of 0] by simp
  have "set ?r0 \<subseteq> {0}" "length ?r0 = ?n" using perm tv
    by (metis set_mset_mset set_replicate_conv_if empty_subsetI subset_refl, metis size_mset length_replicate)
  hence r0: "?r0 = replicate ?n 0"
    by (metis replicate_eqI subset_singletonD empty_iff singletonD subsetD)
  show rows: "targeting_rows srt a1 a2 p = Inr (replicate ?n 0, replicate ?n 0)"
    using targeting_rows_eq[OF ok len p] k0 r0 tv by simp
  show "confusion_ravel srt a1 a2 p = Inr (if a1 = [] then [] else [?n])"
  proof (cases "a1 = []")
    case True
    thus ?thesis using rows
      by (simp add: confusion_ravel_def ravel_def confusion_matrix_def unique_labels_def)
  next
    case False
    have "unique_labels (replicate ?n 0) (replicate ?n 0) = [0]"
      by (rule sorted_distinct_one) (use False in \<open>simp_all add: unique_labels_props\<close>)
    moreover have "count_pairs (replicate ?n 0) (replicate ?n 0) 0 0 = ?n"
      by (simp add: count_pairs_def zip_replicate)
    ultimately show ?thesis using False
      by (simp add: confusion_ravel_def rows ravel_def confusion_matrix_def)
  qed
qed

subsection \<open>The metric tuple\<close>

lemma confusion_counts_cases:
  assumes ok: "argsort_ok srt" and len: "length a2 = length a1" and p: "0 < p" "p < 100"
  shows "(\<exists>c. confusion_ravel srt a1 a2 p = Inr c \<and> sum_list c = length a1) \<and>
         (case confusion_counts srt a1 a2 p of
            Inr (tn, fp, fn, tp) \<Rightarrow>
              tn + fp + fn + tp = length a1 \<and> 100 \<le> p * of_nat (length a1)
          | Inl e \<Rightarrow> e = ValueError \<and> p * of_nat (length a1) < 100)"
proof (cases "1 \<le> num_ones p (length a1)")
  case True
  obtain r0 r1 where rows: "targeting_rows srt a1 a2 p = Inr (r0, r1)"
    using targeting_rows_eq[OF ok len p] by blast
  note two = confusion_ravel_two_classes[OF ok len p True rows]
  have "100 \<le> p * of_nat (length a1)" using True num_ones_pos_iff[OF p(1)] by simp
  thus ?thesis using two(1,2) by (simp add: confusion_counts_def)
next
  case False
  hence k0: "num_ones p (length a1) = 0" using num_ones_bounds(1)[OF p, of "length a1"] by simp
  have "p * of_nat (length a1) < 100" using False num_ones_pos_iff[OF p(1), of "length a1"] by simp
  thus ?thesis using confusion_ravel_one_class(2)[OF ok len p k0]
    by (simp add: confusion_counts_def)
qed

lemma metrics_two_classes_gen:
  assumes ok: "argsort_ok srt" and rows: "targeting_rows srt a1 a2 p = Inr (r0, r1)"
    and k1: "1 \<le> num_ones p (length a1)" and klt: "num_ones p (length a1) < int (length a1)"
  shows "metrics srt a1 a2 p =
     Inr \<lparr>accuracy = of_nat (count_pairs r0 r1 1 1 + count_pairs r0 r1 0 0) / of_nat (length a1),
          precision = of_nat (count_pairs r0 r1 1 1) / of_nat (nat (num_ones p (length a1))),
          recall = of_nat (count_pairs r0 r1 1 1) / of_nat (nat (num_ones p (length a1))),
          tpr = of_nat (count_pairs r0 r1 1 1) / of_nat (nat (num_ones p (length a1))),
          fpr = of_nat (count_pairs r0 r1 0 1) / of_nat (length a1 - nat (num_ones p (length a1)))\<rparr>"
proof -
  note two = confusion_ravel_two_classes_gen[OF ok rows k1 klt]
  let ?tn = "count_pairs r0 r1 0 0" and ?fp = "count_pairs r0 r1 0 1"
  let ?fn = "count_pairs r0 r1 1 0" and ?tp = "count_pairs r0 r1 1 1"
  let ?n = "length a1" and ?k = "nat (num_ones p (length a1))"
  have d: "?n \<noteq> 0" "?k \<noteq> 0" "?n - ?k \<noteq> 0" using two(6,7) by auto
  have "?tp + ?tn + ?fp + ?fn = ?n" using two(2) by simp
  hence 1: "np_div (?tp + ?tn) (?tp + ?tn + ?fp + ?fn) = Inr (of_nat (?tp + ?tn) / of_nat ?n)"
    using d(1) by (simp only: np_div_def if_False)
  have 2: "np_div ?tp (?tp + ?fp) = Inr (of_nat ?tp / of_nat ?k)"
    using d(2) by (simp only: np_div_def two(3) if_False)
  have 3: "np_div ?tp (?tp + ?fn) = Inr (of_nat ?tp / of_nat ?k)"
    using d(2) by (simp only: np_div_def two(4) if_False)
  have 4: "np_div ?fp (?fp + ?tn) = Inr (of_nat ?fp / of_nat (?n - ?k))"
    using d(3) by (simp only: np_div_def two(5) if_False)
  show ?thesis
    unfolding metrics_def confusion_counts_def two(1)
    by (simp only: unpack4.simps sum.case prod.case 1 2 3 4)
qed

lemma metrics_two_classes:
  assumes ok: "argsort_ok srt" and len: "length a2 = length a1" and p: "0 < p" "p < 100"
    and big: "100 \<le> p * of_nat (length a1)"
    and rows: "targeting_rows srt a1 a2 p = Inr (r0, r1)"
  shows "metrics srt a1 a2 p =
     Inr \<lparr>accuracy = of_nat (count_pairs r0 r1 1 1 + count_pairs r0 r1 0 0) / of_nat (length a1),
          precision = of_nat (count_pairs r0 r1 1 1) / of_nat (nat (num_ones p (length a1))),
          recall = of_nat (count_pairs r0 r1 1 1) / of_nat (nat (num_ones p (length a1))),
          tpr = of_nat (count_pairs r0 r1 1 1) / of_nat (nat (num_ones p (length a1))),
          fpr = of_nat (count_pairs r0 r1 0 1) / of_nat (length a1 - nat (num_ones p (length a1)))\<rparr>"
proof -
  have k1: "1 \<le> num_ones p (length a1)" using big num_ones_pos_iff[OF p(1)] by simp
  have "num_ones p (length a1) \<le> int (length a1)" using num_ones_bounds(2)[OF p] .
  hence "0 < length a1" using k1 by auto
  hence klt: "num_ones p (length a1) < int (length a1)" using num_ones_bounds(3)[OF p] by blast
  show ?thesis using metrics_two_classes_gen[OF ok rows k1 klt] .
qed

lemma constant_rows_raise:
  assumes "set r0 \<subseteq> {c}" "set r1 \<subseteq> {c}"
  shows "unpack4 (ravel (confusion_matrix r0 r1)) = Inl ValueError"
proof -
  have "set (unique_labels r0 r1) \<subseteq> {c}" using assms by (simp add: unique_labels_props)
  have "unique_labels r0 r1 = [] \<or> unique_labels r0 r1 = [c]"
  proof (cases "unique_labels r0 r1 = []")
    case False
    hence "set (unique_labels r0 r1) \<noteq> {}" by simp
    hence "set (unique_labels r0 r1) = {c}"
      using \<open>set (unique_labels r0 r1) \<subseteq> {c}\<close> by (simp add: subset_singleton_iff)
    thus ?thesis using sorted_distinct_one[OF unique_labels_props(1)] by blast
  qed simp
  thus ?thesis by (auto simp: ravel_def confusion_matrix_def)
qed

lemma metrics_never_NonFinite:
  assumes ok: "argsort_ok srt"
  shows "metrics srt a1 a2 p \<noteq> Inl NonFinite"
proof (cases "targeting_rows srt a1 a2 p")
  case (Inl e)
  hence "metrics srt a1 a2 p = Inl ValueError"
    using targeting_rows_Inl[OF Inl] by (simp add: metrics_def confusion_counts_def confusion_ravel_def)
  thus ?thesis by simp
next
  case (Inr rows)
  obtain r0 r1 where rows: "targeting_rows srt a1 a2 p = Inr (r0, r1)" using Inr by (cases rows) simp
  let ?n = "length a1" and ?k = "num_ones p (length a1)"
  note f = targeting_rows_Inr[OF rows]
  show ?thesis
  proof (cases "1 \<le> ?k \<and> ?k < int ?n")
    case True
    thus ?thesis using metrics_two_classes_gen[OF ok rows] by simp
  next
    case False
    hence k: "?k = 0 \<or> ?k = int ?n" using f(3,4) by auto
    have "set r1 \<subseteq> {0} \<or> set r1 \<subseteq> {1}"
      using k f(6) by (auto simp: set_targeting_vector split: if_splits)
    then obtain c where c: "set r1 \<subseteq> {c}" by blast
    have "mset r0 = mset r1" using targeting_row0_perm[OF ok f(5,3,4)] f(6,7) by simp
    hence "set r0 = set r1" by (metis set_mset_mset)
    hence "unpack4 (ravel (confusion_matrix r0 r1)) = Inl ValueError"
      using c by (intro constant_rows_raise[of r0 c r1]) simp_all
    hence "metrics srt a1 a2 p = Inl ValueError"
      by (simp add: metrics_def confusion_counts_def confusion_ravel_def rows)
    thus ?thesis by simp
  qed
qed

subsection \<open>A perfect predictor\<close>

lemma argsort_sorted_row:
  assumes "argsort_ok srt"
  shows "take_cols (srt xs) xs = sort xs"
proof -
  have "mset (take_cols (srt xs) xs) = mset xs"
    using assms by (intro take_cols_perm) (simp add: argsort_ok_def)
  moreover have "sorted (take_cols (srt xs) xs)"
    using assms by (simp add: argsort_ok_def take_cols_def)
  ultimately show ?thesis by (metis properties_for_sort)
qed

lemma argsort_distinct_sorted_id:
  assumes ok: "argsort_ok srt" and "sorted xs" "distinct xs"
  shows "srt xs = [0..<length xs]"
proof -
  have "take_cols (srt xs) xs = sort xs" using argsort_sorted_row[OF ok] .
  also have "\<dots> = xs" using assms(2) by (simp add: sorted_sort_id)
  also have "\<dots> = map ((!) xs) [0..<length xs]" by (simp add: map_nth)
  finally have eq: "map ((!) xs) (srt xs) = map ((!) xs) [0..<length xs]"
    by (simp add: take_cols_def)
  have "set (srt xs) = {0..<length xs}"
    using ok by (metis argsort_ok_def set_mset_mset set_upt)
  hence "inj_on ((!) xs) (set (srt xs) \<union> set [0..<length xs])"
    using assms(3) by (auto simp: inj_on_def nth_eq_iff_index_eq)
  thus ?thesis using eq by (simp only: inj_on_map_eq_map)
qed

lemma argsort_stable_sorted_id: "sorted xs \<Longrightarrow> argsort_stable xs = [0..<length xs]"
  by (simp add: argsort_stable_def sort_key_id_if_sorted map_nth)

lemma targeting_rows_perfect:
  assumes ok: "argsort_ok srt" and p: "0 < p" "p < 100"
    and ties: "distinct a1 \<or> srt (sort a1) = [0..<length a1]"
  shows "targeting_rows srt a1 a1 p =
           Inr (targeting_vector (num_ones p (length a1)) (int (length a1) - num_ones p (length a1)),
                targeting_vector (num_ones p (length a1)) (int (length a1) - num_ones p (length a1)))"
proof -
  let ?tv = "targeting_vector (num_ones p (length a1)) (int (length a1) - num_ones p (length a1))"
  have len: "length ?tv = length a1"
    using num_ones_bounds(1,2)[OF p, of "length a1"] by (simp add: filter_targeting_vector(3))
  have "srt (sort a1) = [0..<length a1]"
  proof (cases "distinct a1")
    case True
    thus ?thesis using argsort_distinct_sorted_id[OF ok, of "sort a1"] by simp
  next
    case False
    thus ?thesis using ties by simp
  qed
  hence "take_cols (srt (take_cols (srt a1) a1)) ?tv = take_cols [0..<length ?tv] ?tv"
    using len by (simp only: argsort_sorted_row[OF ok])
  hence "take_cols (srt (take_cols (srt a1) a1)) ?tv = ?tv"
    by (simp only: take_cols_def map_nth)
  thus ?thesis using targeting_rows_eq[OF ok refl p, of a1] by simp
qed

lemma count_pairs_diag:
  "count_pairs xs xs a b = (if a = b then length (filter (\<lambda>x. x = a) xs) else 0)"
  by (induction xs) (auto simp: count_pairs_def)

lemma metrics_perfect:
  assumes "argsort_ok srt" and "0 < p" and "p < 100" and "100 \<le> p * of_nat (length a1)"
    and "distinct a1 \<or> srt (sort a1) = [0..<length a1]"
  shows "metrics srt a1 a1 p =
           Inr \<lparr>accuracy = 1, precision = 1, recall = 1, tpr = 1, fpr = 0\<rparr>"
proof -
  let ?n = "length a1" and ?k = "nat (num_ones p (length a1))"
  let ?tv = "targeting_vector (num_ones p ?n) (int ?n - num_ones p ?n)"
  have k1: "1 \<le> num_ones p ?n" using assms(4) num_ones_pos_iff[OF assms(2)] by simp
  have rows: "targeting_rows srt a1 a1 p = Inr (?tv, ?tv)"
    using targeting_rows_perfect[OF assms(1,2,3,5)] .
  note two = confusion_ravel_two_classes[OF assms(1) refl assms(2,3) k1 rows]
  have fp: "count_pairs ?tv ?tv 0 1 = 0" by (simp add: count_pairs_diag)
  have tp: "count_pairs ?tv ?tv 1 1 = ?k" using two(3) fp by simp
  have tn: "count_pairs ?tv ?tv 0 0 = ?n - ?k" using two(5) fp by simp
  have "?k \<noteq> 0" "?n - ?k \<noteq> 0" "?k + (?n - ?k) = ?n" "a1 \<noteq> []" using two(6,7) by auto
  thus ?thesis
    unfolding metrics_two_classes[OF assms(1) refl assms(2,3,4) rows] fp tp tn
    by simp
qed

subsection \<open>Claims about \<open>metrics\<close>\<close>








text \<open>
  The hypothesis on ties is needed: an argsort that meets the contract but orders ties
  in reverse gives a perfect predictor with two equal values accuracy 0.
\<close>

lemma metrics_perfect_predictor_ties:
  "argsort_ok argsort_rev \<and>
   metrics argsort_rev [5, 5] [5, 5] 50 =
     Inr \<lparr>accuracy = 0, precision = 0, recall = 0, tpr = 0, fpr = 1\<rparr>"
proof -
  have "metrics argsort_rev [5, 5] [5, 5] 50 =
     Inr \<lparr>accuracy = 0, precision = 0, recall = 0, tpr = 0, fpr = 1\<rparr>" by code_simp
  thus ?thesis using argsort_rev_ok by simp
qed

section \<open>AUC aggregator\<close>

subsection \<open>The loop exits\<close>

lemma strictly_increasing_nth:
  "strictly_increasing L \<longleftrightarrow> (\<forall>j. 1 \<le> j \<and> j < length L \<longrightarrow> L ! (j - 1) < L ! j)"
proof -
  have "strictly_increasing L \<longleftrightarrow> (\<forall>i < length L - 1. L ! i < L ! Suc i)"
    by (auto simp: strictly_increasing_def list_all_length nth_tl)
  also have "\<dots> \<longleftrightarrow> (\<forall>j. 1 \<le> j \<and> j < length L \<longrightarrow> L ! (j - 1) < L ! j)"
  proof (intro iffI allI impI)
    fix j assume h: "\<forall>i < length L - 1. L ! i < L ! Suc i" and j: "1 \<le> j \<and> j < length L"
    hence "L ! (j - 1) < L ! Suc (j - 1)" by (intro h[rule_format]) linarith
    thus "L ! (j - 1) < L ! j" using j by simp
  next
    fix i assume h: "\<forall>j. 1 \<le> j \<and> j < length L \<longrightarrow> L ! (j - 1) < L ! j" and i: "i < length L - 1"
    thus "L ! i < L ! Suc i" using h[rule_format, of "Suc i"] by simp
  qed
  finally show ?thesis .
qed

lemma strictly_increasing_sorted_wrt: "strictly_increasing L \<longleftrightarrow> sorted_wrt (<) L"
proof -
  have "strictly_increasing L \<longleftrightarrow> (\<forall>i. Suc i < length L \<longrightarrow> L ! i < L ! Suc i)"
    by (auto simp: strictly_increasing_def list_all_length nth_tl)
  thus ?thesis by (simp add: sorted_wrt_iff_nth_Suc_transp)
qed

lemma set_to_remove:
  "set (to_remove fprs) = {j. 1 \<le> j \<and> j < length fprs \<and> fprs ! j \<le> fprs ! (j - 1)}"
  by (auto simp: to_remove_def)

lemma length_keep_le: "length (keep rm xs) \<le> length xs"
  unfolding keep_def by (metis length_map length_filter_le length_upt diff_zero)

lemma length_keep_eq:
  "length xs = length ys \<Longrightarrow> length (keep rm xs) = length (keep rm ys)"
  by (simp add: keep_def)

lemma length_keep_less:
  assumes "\<not> strictly_increasing fprs"
  shows "length (keep (to_remove fprs) fprs) < length fprs"
proof -
  obtain j where j: "1 \<le> j" "j < length fprs" "fprs ! j \<le> fprs ! (j - 1)"
    using assms unfolding strictly_increasing_nth by (auto simp: not_less)
  hence "j \<in> set [0..<length fprs]" "\<not> j \<notin> set (to_remove fprs)"
    by (simp_all add: set_to_remove)
  hence "length (filter (\<lambda>i. i \<notin> set (to_remove fprs)) [0..<length fprs]) < length [0..<length fprs]"
    by (rule length_filter_less)
  thus ?thesis by (simp add: keep_def)
qed

lemma monotonize_invariant:
  assumes "I fprs tprs"
    and "\<And>f t. I f t \<Longrightarrow> \<not> strictly_increasing f \<Longrightarrow> I (keep (to_remove f) f) (keep (to_remove f) t)"
  shows "\<exists>f t. monotonize fprs tprs = Some (f, t) \<and> strictly_increasing f \<and> I f t"
  using assms(1)
proof (induction "length fprs" arbitrary: fprs tprs rule: less_induct)
  case less
  show ?case
  proof (cases "strictly_increasing fprs")
    case True
    thus ?thesis using less.prems by (subst monotonize.simps) simp
  next
    case False
    let ?f = "keep (to_remove fprs) fprs" and ?t = "keep (to_remove fprs) tprs"
    have "\<exists>f t. monotonize ?f ?t = Some (f, t) \<and> strictly_increasing f \<and> I f t"
      using length_keep_less[OF False] assms(2)[OF less.prems False] by (rule less.hyps)
    thus ?thesis using False by (subst monotonize.simps) (simp add: Let_def)
  qed
qed

lemma monotonize_terminates:
  "\<exists>f t. monotonize fprs tprs = Some (f, t) \<and> strictly_increasing f"
  using monotonize_invariant[of "\<lambda>_ _. True" fprs tprs] by simp

subsection \<open>What one pass keeps\<close>

lemma zero_not_removed: "0 \<notin> set (to_remove fprs)"
  by (simp add: set_to_remove)

lemma keep_hd:
  assumes "xs \<noteq> []" "0 \<notin> set rm"
  shows "keep rm xs \<noteq> [] \<and> hd (keep rm xs) = hd xs"
proof -
  have "[0..<length xs] = 0 # [1..<length xs]" using assms(1) by (simp add: upt_conv_Cons)
  thus ?thesis using assms by (simp add: keep_def hd_conv_nth)
qed

lemma set_keep: "set (keep rm xs) \<subseteq> set xs"
  by (auto simp: keep_def)

lemma keep_max:
  assumes "x \<in> set fprs" "\<forall>y\<in>set fprs. y \<le> x"
  shows "x \<in> set (keep (to_remove fprs) fprs)"
proof -
  define i where "i = (LEAST i. i < length fprs \<and> fprs ! i = x)"
  have ex: "\<exists>i. i < length fprs \<and> fprs ! i = x" using assms(1) by (simp add: in_set_conv_nth)
  hence i: "i < length fprs" "fprs ! i = x" unfolding i_def by (metis (mono_tags, lifting) LeastI_ex)+
  have least: "\<And>k. k < length fprs \<Longrightarrow> fprs ! k = x \<Longrightarrow> i \<le> k"
    unfolding i_def by (simp add: Least_le)
  have "i \<notin> set (to_remove fprs)"
  proof
    assume "i \<in> set (to_remove fprs)"
    hence r: "1 \<le> i" "fprs ! i \<le> fprs ! (i - 1)" by (simp_all add: set_to_remove)
    have "fprs ! (i - 1) \<le> x" using assms(2) i(1) by (simp add: less_imp_diff_less)
    hence "fprs ! (i - 1) = x" using r(2) i(2) by simp
    hence "i \<le> i - 1" using i(1) by (intro least) (simp_all add: less_imp_diff_less)
    thus False using r(1) by simp
  qed
  hence "i \<in> set (filter (\<lambda>i. i \<notin> set (to_remove fprs)) [0..<length fprs])" using i(1) by simp
  hence "fprs ! i \<in> set (keep (to_remove fprs) fprs)" unfolding keep_def by (metis imageI set_map)
  thus ?thesis using i(2) by simp
qed

lemma keep_some_ge:
  assumes "\<exists>x\<in>set fprs. c \<le> x"
  shows "\<exists>x\<in>set (keep (to_remove fprs) fprs). c \<le> x"
proof -
  have ne: "set fprs \<noteq> {}" using assms by auto
  let ?M = "Max (set fprs)"
  have "?M \<in> set fprs" "\<forall>y\<in>set fprs. y \<le> ?M" using ne by simp_all
  hence "?M \<in> set (keep (to_remove fprs) fprs)" by (rule keep_max)
  moreover have "c \<le> ?M" using assms by (meson List.finite_set Max_ge order_trans)
  ultimately show ?thesis by blast
qed

lemma to_remove_snoc:
  assumes "fs \<noteq> []" "\<forall>y\<in>set fs. y < x"
  shows "to_remove (fs @ [x]) = to_remove fs"
proof -
  let ?n = "length fs"
  have n: "1 \<le> ?n" using assms(1) by (cases fs) simp_all
  hence upt: "[1..<length (fs @ [x])] = [1..<?n] @ [?n]" by simp
  have "last fs < x" using assms by simp
  hence lastq: "\<not> (fs @ [x]) ! ?n \<le> (fs @ [x]) ! (?n - 1)"
    using n assms(1) by (simp add: nth_append last_conv_nth)
  have "filter (\<lambda>j. (fs @ [x]) ! j \<le> (fs @ [x]) ! (j - 1)) [1..<?n]
        = filter (\<lambda>j. fs ! j \<le> fs ! (j - 1)) [1..<?n]"
    by (rule filter_cong) (auto simp: nth_append)
  thus ?thesis unfolding to_remove_def upt using lastq by simp
qed

lemma keep_snoc:
  assumes "length xs \<notin> set rm"
  shows "keep rm (xs @ [x]) = keep rm xs @ [x]"
proof -
  have "map ((!) (xs @ [x])) (filter (\<lambda>i. i \<notin> set rm) [0..<length xs])
      = map ((!) xs) (filter (\<lambda>i. i \<notin> set rm) [0..<length xs])"
    by (rule map_cong) (auto simp: nth_append)
  thus ?thesis using assms by (simp add: keep_def)
qed

lemma to_remove_bound: "j \<in> set (to_remove fs) \<Longrightarrow> j < length fs"
  by (simp add: set_to_remove)

lemma strictly_increasing_last:
  assumes "strictly_increasing f" "x \<in> set f" "\<forall>y\<in>set f. y \<le> x"
  shows "last f = x"
proof -
  have ne: "f \<noteq> []" using assms(2) by auto
  obtain i where i: "i < length f" "f ! i = x" using assms(2) by (auto simp: in_set_conv_nth)
  have "i = length f - 1"
  proof (rule ccontr)
    assume "i \<noteq> length f - 1"
    hence "i < length f - 1" using i(1) by simp
    moreover have "length f - 1 < length f" using ne by simp
    moreover have "sorted_wrt (<) f" using assms(1) by (simp add: strictly_increasing_sorted_wrt)
    ultimately have "f ! i < f ! (length f - 1)"
      using sorted_wrt_nth_less[of "(<)" f i "length f - 1"] by blast
    moreover have "f ! (length f - 1) \<le> x" using assms(3) ne by simp
    ultimately show False using i(2) by simp
  qed
  thus ?thesis using i(2) ne by (simp add: last_conv_nth)
qed

subsection \<open>The forced end points\<close>

lemma monotonize_endpoints:
  assumes "length fs = length ts"
  shows "\<exists>f t. monotonize (0 # fs @ [1]) (0 # ts @ [1]) = Some (f, t) \<and> strictly_increasing f
           \<and> length t = length f \<and> 2 \<le> length f \<and> hd f = 0 \<and> hd t = 0"
proof -
  define I :: "rat list \<Rightarrow> rat list \<Rightarrow> bool" where
    "I = (\<lambda>f t. length t = length f \<and> f \<noteq> [] \<and> hd f = 0 \<and> hd t = 0 \<and> (\<exists>x\<in>set f. 1 \<le> x))"
  have init: "I (0 # fs @ [1]) (0 # ts @ [1])" using assms by (simp add: I_def)
  have step: "I (keep (to_remove f) f) (keep (to_remove f) t)" if "I f t" for f t
  proof -
    have ft: "length t = length f" "f \<noteq> []" "t \<noteq> []" "hd f = 0" "hd t = 0" "\<exists>x\<in>set f. 1 \<le> x"
      using that by (auto simp: I_def)
    show ?thesis
      unfolding I_def
      using keep_hd[OF ft(2) zero_not_removed, of f] keep_hd[OF ft(3) zero_not_removed, of f]
        length_keep_eq[OF ft(1), of "to_remove f"] keep_some_ge[OF ft(6)] ft(4,5)
      by simp
  qed
  obtain f t where r: "monotonize (0 # fs @ [1]) (0 # ts @ [1]) = Some (f, t)"
      "strictly_increasing f" "I f t"
    using monotonize_invariant[of I, OF init step] by blast
  have "2 \<le> length f"
  proof (rule ccontr)
    assume "\<not> 2 \<le> length f"
    moreover have "f \<noteq> []" "hd f = 0" "\<exists>x\<in>set f. 1 \<le> x" using r(3) by (simp_all add: I_def)
    ultimately show False by (cases f; cases "tl f") auto
  qed
  thus ?thesis using r by (auto simp: I_def)
qed

lemma monotonize_last_fpr:
  assumes "\<forall>x\<in>set fs. x \<le> 1"
  shows "\<exists>f t. monotonize (0 # fs @ [1]) tprs = Some (f, t) \<and> last f = 1"
proof -
  define I :: "rat list \<Rightarrow> rat list \<Rightarrow> bool" where
    "I = (\<lambda>f t. 1 \<in> set f \<and> (\<forall>x\<in>set f. x \<le> 1))"
  have init: "I (0 # fs @ [1]) tprs" using assms by (simp add: I_def)
  have step: "I (keep (to_remove f) f) (keep (to_remove f) t)" if "I f t" for f t
    using that keep_max[of 1 f] set_keep[of "to_remove f" f] by (auto simp: I_def)
  obtain f t where r: "monotonize (0 # fs @ [1]) tprs = Some (f, t)"
      "strictly_increasing f" "I f t"
    using monotonize_invariant[of I, OF init step] by blast
  have "last f = 1" using r(2,3) by (intro strictly_increasing_last) (simp_all add: I_def)
  thus ?thesis using r(1) by simp
qed

lemma monotonize_terminal_point:
  assumes "length fs = length ts" "\<forall>x\<in>set fs. x < 1"
  shows "\<exists>f t. monotonize (0 # fs @ [1]) (0 # ts @ [1]) = Some (f, t) \<and> last f = 1 \<and> last t = 1"
proof -
  define I :: "rat list \<Rightarrow> rat list \<Rightarrow> bool" where
    "I = (\<lambda>f t. \<exists>fs ts. f = fs @ [1] \<and> t = ts @ [1] \<and> length fs = length ts \<and> (\<forall>x\<in>set fs. x < 1))"
  have init: "I (0 # fs @ [1]) (0 # ts @ [1])"
    unfolding I_def using assms by (intro exI[of _ "0 # fs"] exI[of _ "0 # ts"]) simp
  have step: "I (keep (to_remove f) f) (keep (to_remove f) t)"
    if h: "I f t" and nsi: "\<not> strictly_increasing f" for f t
  proof -
    obtain fs' ts' where d: "f = fs' @ [1]" "t = ts' @ [1]" "length fs' = length ts'"
        "\<forall>x\<in>set fs'. x < 1"
      using h unfolding I_def by blast
    have ne: "fs' \<noteq> []" using nsi d(1) by (auto simp: strictly_increasing_def)
    have rm: "to_remove (fs' @ [1]) = to_remove fs'" using ne d(4) by (rule to_remove_snoc)
    have n1: "length fs' \<notin> set (to_remove fs')" using to_remove_bound[of "length fs'" fs'] by auto
    hence n2: "length ts' \<notin> set (to_remove fs')" using d(3) by simp
    have 1: "keep (to_remove f) f = keep (to_remove fs') fs' @ [1]"
      unfolding d(1) rm using n1 by (rule keep_snoc)
    have 2: "keep (to_remove f) t = keep (to_remove fs') ts' @ [1]"
      unfolding d(1) d(2) rm using n2 by (rule keep_snoc)
    have 3: "\<forall>x\<in>set (keep (to_remove fs') fs'). x < 1"
      using d(4) set_keep[of "to_remove fs'" fs'] by auto
    show ?thesis unfolding I_def using 1 2 3 length_keep_eq[OF d(3), of "to_remove fs'"] by blast
  qed
  obtain f t where r: "monotonize (0 # fs @ [1]) (0 # ts @ [1]) = Some (f, t)" "I f t"
    using monotonize_invariant[of I, OF init step] by blast
  thus ?thesis by (auto simp: I_def)
qed

subsection \<open>Claims about the monotonization loop\<close>

text \<open>
  C2, as the specification states it, fails in its last part: the loop can remove one of
  the two forced end points. When a collected point already has fpr 1, the appended
  point \<open>(1, 1)\<close> is not above its predecessor and is removed; the curve then ends at the
  collected point, here \<open>(1, 1/2)\<close>.
\<close>

theorem auc_monotonize_counterexample:
  "monotonize [0, 1, 1] [0, 1 / 2, 1] = Some ([0, 1], [0, 1 / 2])"
  by code_simp

text \<open>
  C2, amended. Modelled from the spec as far as \<open>strictly_increasing\<close> goes. The loop
  exits on every input, with a strictly increasing fpr sequence. On the lists
  \<open>auc_overall\<close> builds (first point forced to \<open>(0, 0)\<close>, \<open>(1, 1)\<close> appended) at least two
  points survive and the first is \<open>(0, 0)\<close>; the last has fpr 1 when no collected fpr
  exceeds 1, and it is the forced point \<open>(1, 1)\<close> when every collected fpr is below 1.
\<close>

theorem auc_monotonize_exits:
  assumes "length fs = length ts"
  shows "(\<exists>f t. monotonize fprs tprs = Some (f, t) \<and> strictly_increasing f) \<and>
         (\<exists>f t. monotonize (0 # fs @ [1]) (0 # ts @ [1]) = Some (f, t) \<and> strictly_increasing f
            \<and> length t = length f \<and> 2 \<le> length f \<and> hd f = 0 \<and> hd t = 0
            \<and> ((\<forall>x\<in>set fs. x \<le> 1) \<longrightarrow> last f = 1)
            \<and> ((\<forall>x\<in>set fs. x < 1) \<longrightarrow> last f = 1 \<and> last t = 1))"
proof -
  obtain f t where r: "monotonize (0 # fs @ [1]) (0 # ts @ [1]) = Some (f, t)"
      "strictly_increasing f" "length t = length f" "2 \<le> length f" "hd f = 0" "hd t = 0"
    using monotonize_endpoints[OF assms] by blast
  have a: "last f = 1" if "\<forall>x\<in>set fs. x \<le> 1"
    using monotonize_last_fpr[OF that, of "0 # ts @ [1]"] r(1) by auto
  have b: "last f = 1 \<and> last t = 1" if "\<forall>x\<in>set fs. x < 1"
    using monotonize_terminal_point[OF assms that] r(1) by auto
  show ?thesis using monotonize_terminates[of fprs tprs] r a b by blast
qed

theorem auc_monotonize_exits_witness:
  "length [1 / 2, 1 / 4, 1 / 2 :: rat] = length [1 / 3, 1 / 2, 1 :: rat]
   \<and> (1 / 2 :: rat) < 1 \<and> (1 / 4 :: rat) < 1
   \<and> monotonize (0 # [1 / 2, 1 / 4, 1 / 2] @ [1]) (0 # [1 / 3, 1 / 2, 1] @ [1])
        = Some ([0, 1 / 2, 1], [0, 1 / 3, 1])
   \<and> strictly_increasing [0, 1 / 2, 1]
   \<and> last [0, 1 / 2, 1 :: rat] = 1 \<and> last [0, 1 / 3, 1 :: rat] = 1"
proof -
  have e: "monotonize (0 # [1 / 2, 1 / 4, 1 / 2] @ [1]) (0 # [1 / 3, 1 / 2, 1] @ [1])
        = Some ([0, 1 / 2, 1], [0, 1 / 3, 1])" by code_simp
  show ?thesis
    using auc_monotonize_exits[of "[1 / 2, 1 / 4, 1 / 2]" "[1 / 3, 1 / 2, 1]" "[]" "[]"] e
    by simp
qed

text \<open>
  The bound of the worst case is met: when every collected fpr is 0 only the two forced
  points are left.
\<close>

lemma auc_monotonize_worst_case:
  "monotonize (0 # [0, 0, 0] @ [1]) (0 # [1 / 3, 1 / 2, 1] @ [1]) = Some ([0, 1], [0, 1])"
  by code_simp

subsection \<open>The grid of cutoffs\<close>

lemma linspace_99: "linspace 1 100 99 = map (\<lambda>k. 1 + of_nat k * (99 / 98)) [0..<99]"
  by (simp add: linspace_def)

lemma grid_eq: "grid = map (\<lambda>k. 1 + of_nat k * (99 / 98)) [0..<98]"
proof -
  have "[0..<99] = [0..<98] @ [98]" by (simp only: upt_Suc_append[symmetric, of 0 98]) simp
  hence "butlast [0..<99] = [0..<98]" by (simp only: butlast_snoc)
  thus ?thesis by (simp only: grid_def linspace_99 map_butlast[symmetric])
qed


lemma length_grid: "length grid = 98"
  by (simp add: grid_eq)


lemma grid_range:
  assumes "p \<in> set grid"
  shows "1 \<le> p" "p < 99"
proof -
  obtain k where k: "k < 98" "p = 1 + of_nat k * (99 / 98)" using assms by (auto simp: grid_eq)
  show "1 \<le> p" using k by simp
  have "(of_nat k :: rat) < 98" using k(1) by simp
  thus "p < 99" using k(2) by (simp add: field_simps)
qed

lemma collect_Inr_iff:
  "collect f ps = Inr ms \<longleftrightarrow> length ms = length ps \<and> (\<forall>k<length ps. f (ps ! k) = Inr (ms ! k))"
proof (induction ps arbitrary: ms)
  case Nil
  show ?case by auto
next
  case (Cons p ps)
  show ?case
  proof (cases ms)
    case Nil
    thus ?thesis by (auto split: sum.splits)
  next
    case (Cons m ms')
    thus ?thesis using Cons.IH[of ms']
      by (auto split: sum.splits simp: nth_Cons less_Suc_eq_0_disj split: nat.splits)
  qed
qed

lemma collect_all_Inr:
  assumes "\<forall>p\<in>set ps. \<exists>m. f p = Inr m"
  shows "\<exists>ms. collect f ps = Inr ms"
  using assms by (induction ps) (auto split: sum.splits)

lemma collect_first_Inl:
  "f p = Inl e \<Longrightarrow> collect f (p # ps) = Inl e"
  by simp

subsection \<open>The sweep and the integration\<close>

lemma metrics_grid_ok:
  assumes ok: "argsort_ok srt" and len: "length a2 = length a1" and n: "100 \<le> length a1"
    and p: "1 \<le> p" "p < 100"
  shows "\<exists>m. metrics srt a1 a2 p = Inr m"
proof -
  have p0: "0 < p" using p(1) by simp
  have "(100 :: rat) \<le> of_nat (length a1)" using n by (metis of_nat_le_iff of_nat_numeral)
  moreover have "1 * of_nat (length a1) \<le> p * (of_nat (length a1) :: rat)"
    using p(1) by (intro mult_right_mono) simp_all
  ultimately have big: "100 \<le> p * of_nat (length a1)" by simp
  obtain r0 r1 where rows: "targeting_rows srt a1 a2 p = Inr (r0, r1)"
    using targeting_rows_eq[OF ok len p0 p(2)] by blast
  show ?thesis using metrics_two_classes[OF ok len p0 p(2) big rows] by blast
qed

lemma metrics_first_cutoff_fails:
  assumes ok: "argsort_ok srt" and bad: "\<not> (length a2 = length a1 \<and> 100 \<le> length a1)"
  shows "metrics srt a1 a2 1 = Inl ValueError"
proof (cases "length a2 = length a1")
  case True
  hence "\<not> (100 :: rat) \<le> 1 * of_nat (length a1)" using bad by simp
  thus ?thesis using confusion_counts_cases[OF ok True, of 1]
    by (auto simp: metrics_def split: sum.splits)
next
  case False
  thus ?thesis
    by (simp add: metrics_def confusion_counts_def confusion_ravel_def targeting_rows_def Let_def)
qed

lemma auc_strictly_increasing:
  assumes "strictly_increasing x" "length y = length x" "2 \<le> length x"
  shows "auc x y = Inr (trapezoid y x)"
proof -
  have "\<not> x ! (i + 1) - x ! i < 0" if "i < length x - 1" for i
  proof -
    have "Suc i < length x" using that by simp
    hence "x ! i < x ! Suc i"
      using assms(1)[unfolded strictly_increasing_nth, rule_format, of "Suc i"] by simp
    thus ?thesis by simp
  qed
  hence "\<not> list_ex (\<lambda>d. d < 0) (map (\<lambda>i. x ! (i + 1) - x ! i) [0..<length x - 1])"
    by (auto simp: list_ex_iff)
  thus ?thesis using assms(2,3) by (simp add: auc_def Let_def)
qed

lemma auc_overall_cases:
  assumes ok: "argsort_ok srt"
  shows "if length a2 = length a1 \<and> 100 \<le> length a1
         then \<exists>ms f t. length ms = 98
                \<and> (\<forall>k<98. metrics srt a1 a2 (grid ! k) = Inr (ms ! k))
                \<and> monotonize (0 # tl (map fpr ms) @ [1]) (0 # tl (map tpr ms) @ [1]) = Some (f, t)
                \<and> strictly_increasing f
                \<and> auc_overall srt a1 a2 = Some (auc f t) \<and> auc f t = Inr (trapezoid t f)
         else auc_overall srt a1 a2 = Some (Inl ValueError)"
proof (cases "length a2 = length a1 \<and> 100 \<le> length a1")
  case True
  have "\<forall>p\<in>set grid. \<exists>m. metrics srt a1 a2 p = Inr m"
  proof
    fix p assume "p \<in> set grid"
    hence "1 \<le> p" "p < 100" using grid_range[of p] by simp_all
    thus "\<exists>m. metrics srt a1 a2 p = Inr m" using metrics_grid_ok[OF ok] True by blast
  qed
  then obtain ms where ms: "collect (metrics srt a1 a2) grid = Inr ms"
    using collect_all_Inr by blast
  hence l: "length ms = 98" and each: "\<forall>k<98. metrics srt a1 a2 (grid ! k) = Inr (ms ! k)"
    by (simp_all add: collect_Inr_iff length_grid)
  let ?F = "map fpr ms" and ?T = "map tpr ms"
  have ne: "?F \<noteq> []" "?T \<noteq> []" using l by auto
  have upd: "?F[0 := 0] @ [1] = 0 # tl ?F @ [1]" "?T[0 := 0] @ [1] = 0 # tl ?T @ [1]"
    using ne by (cases ms; simp)+
  obtain f t where r: "monotonize (0 # tl ?F @ [1]) (0 # tl ?T @ [1]) = Some (f, t)"
      "strictly_increasing f" "length t = length f" "2 \<le> length f"
    using monotonize_endpoints[of "tl ?F" "tl ?T"] by auto
  have a: "auc f t = Inr (trapezoid t f)" using auc_strictly_increasing[OF r(2,3,4)] .
  have "auc_overall srt a1 a2 = Some (auc f t)"
    using ne upd r(1) by (simp add: auc_overall_def ms Let_def)
  thus ?thesis using True l each r(1,2) a by auto
next
  case False
  have "[0..<98] = 0 # [1..<98]" by (simp add: upt_conv_Cons)
  hence g: "grid = 1 # tl grid" by (simp add: grid_eq)
  have "collect (metrics srt a1 a2) (1 # tl grid) = Inl ValueError"
    using metrics_first_cutoff_fails[OF ok False] by (rule collect_first_Inl)
  hence "collect (metrics srt a1 a2) grid = Inl ValueError" using g by simp
  hence "auc_overall srt a1 a2 = Some (Inl ValueError)" by (simp add: auc_overall_def)
  thus ?thesis using False by (simp only: if_False)
qed

subsection \<open>The area of a perfect predictor\<close>

lemma monotonize_flat:
  assumes len: "length fs = length ts" and flat: "set fs \<subseteq> {0}"
  shows "monotonize (0 # fs @ [1]) (0 # ts @ [1]) = Some ([0, 1], [0, 1])"
proof -
  obtain f t where r: "monotonize (0 # fs @ [1]) (0 # ts @ [1]) = Some (f, t)"
      "strictly_increasing f" "length t = length f" "2 \<le> length f" "hd f = 0" "hd t = 0"
    using monotonize_endpoints[OF len] by blast
  have "\<forall>x\<in>set fs. x < 1" using flat by auto
  hence l: "last f = 1" "last t = 1" using monotonize_terminal_point[OF len] r(1) by auto
  define I :: "rat list \<Rightarrow> rat list \<Rightarrow> bool" where "I = (\<lambda>f t. set f \<subseteq> {0, 1})"
  have "I (0 # fs @ [1]) (0 # ts @ [1])" using flat by (auto simp: I_def)
  moreover have "I (keep (to_remove f) f) (keep (to_remove f) t)" if "I f t" for f t
    using that set_keep[of "to_remove f" f] by (auto simp: I_def)
  ultimately have "\<exists>f t. monotonize (0 # fs @ [1]) (0 # ts @ [1]) = Some (f, t)
      \<and> strictly_increasing f \<and> I f t"
    by (rule monotonize_invariant)
  hence sub: "set f \<subseteq> {0, 1}" using r(1) by (auto simp: I_def)
  have "distinct f" using r(2) unfolding strictly_increasing_sorted_wrt
    by (simp add: strict_sorted_iff)
  hence "length f = card (set f)" by (simp add: distinct_card)
  also have "\<dots> \<le> card {0, 1 :: rat}" using sub by (intro card_mono) simp_all
  finally have "length f = 2" using r(4) by simp
  hence "f = [hd f, last f]" "t = [hd t, last t]" using r(3)
    by (cases f; cases "tl f"; cases t; cases "tl t"; simp)+
  thus ?thesis using r(1,5,6) l by simp
qed

lemma auc_two_points: "auc [0, 1] [0, 1] = Inr (1 / 2)"
  by code_simp

lemma auc_overall_perfect:
  assumes ok: "argsort_ok srt" and n: "100 \<le> length a1"
    and ties: "distinct a1 \<or> srt (sort a1) = [0..<length a1]"
  shows "auc_overall srt a1 a1 = Some (Inr (1 / 2))"
proof -
  obtain ms f t where r: "length ms = 98"
      "\<forall>k<98. metrics srt a1 a1 (grid ! k) = Inr (ms ! k)"
      "monotonize (0 # tl (map fpr ms) @ [1]) (0 # tl (map tpr ms) @ [1]) = Some (f, t)"
      "auc_overall srt a1 a1 = Some (auc f t)"
    using auc_overall_cases[OF ok, of a1 a1] n by auto
  have each: "ms ! k = \<lparr>accuracy = 1, precision = 1, recall = 1, tpr = 1, fpr = 0\<rparr>" if "k < 98" for k
  proof -
    have "grid ! k \<in> set grid" using that by (simp add: length_grid)
    hence p: "1 \<le> grid ! k" "grid ! k < 100" using grid_range[of "grid ! k"] by simp_all
    have "(100 :: rat) \<le> of_nat (length a1)" using n by (metis of_nat_le_iff of_nat_numeral)
    moreover have "1 * of_nat (length a1) \<le> grid ! k * (of_nat (length a1) :: rat)"
      using p(1) by (intro mult_right_mono) simp_all
    ultimately have big: "100 \<le> grid ! k * of_nat (length a1)" by simp
    have "0 < grid ! k" using p(1) by simp
    from metrics_perfect[OF ok this p(2) big ties] r(2) that show ?thesis by simp
  qed
  have "map fpr ms = replicate 98 0" "map tpr ms = replicate 98 1"
    using r(1) each by (auto intro!: nth_equalityI)
  hence "tl (map fpr ms) = replicate 97 0" "tl (map tpr ms) = replicate 97 1"
    by (simp_all add: numeral_eq_Suc)
  hence "monotonize (0 # tl (map fpr ms) @ [1]) (0 # tl (map tpr ms) @ [1]) = Some ([0, 1], [0, 1])"
    by (intro monotonize_flat) simp_all
  hence "f = [0, 1] \<and> t = [0, 1]" using r(3) by simp
  thus ?thesis using r(4) auc_two_points by simp
qed

subsection \<open>Claim about the sweep\<close>



section \<open>DropMissing\<close>

subsection \<open>Fit and transform on the same table\<close>

lemma filter_map_fst: "map fst (filter (\<lambda>(name, m). P m) (map (\<lambda>(name, col). (name, g col)) X))
   = map fst (filter (\<lambda>(name, col). P (g col)) X)"
  by (induction X) auto

lemma dm_cols_to_drop:
  "cols_to_drop (dm_fit t X) = map fst (filter (\<lambda>(name, col). nan_gt (mean_bool (isna_col col)) t) X)"
  by (simp add: dm_fit_def missing_frac_of_def Let_def filter_map_fst)

lemma distinct_names_unique:
  assumes "distinct (map fst X)" "(name, c) \<in> set X" "(name, d) \<in> set X"
  shows "c = d"
  using assms by (rule eq_key_imp_eq_value)

lemma dm_dropped_iff:
  assumes "distinct (column_names X)" "(name, col) \<in> set X"
  shows "name \<in> set (cols_to_drop (dm_fit t X)) \<longleftrightarrow> nan_gt (mean_bool (isna_col col)) t"
proof
  assume "name \<in> set (cols_to_drop (dm_fit t X))"
  then obtain c where c: "(name, c) \<in> set X" "nan_gt (mean_bool (isna_col c)) t"
    unfolding dm_cols_to_drop by auto
  have "c = col"
    using distinct_names_unique[OF assms(1)[unfolded column_names_def] c(1) assms(2)] .
  thus "nan_gt (mean_bool (isna_col col)) t" using c(2) by simp
next
  assume "nan_gt (mean_bool (isna_col col)) t"
  hence "(name, col) \<in> set (filter (\<lambda>(name, col). nan_gt (mean_bool (isna_col col)) t) X)"
    using assms(2) by simp
  hence "fst (name, col)
      \<in> fst ` set (filter (\<lambda>(name, col). nan_gt (mean_bool (isna_col col)) t) X)"
    by (rule imageI)
  thus "name \<in> set (cols_to_drop (dm_fit t X))"
    by (simp only: dm_cols_to_drop set_map fst_conv)
qed

lemma dm_fit_transform:
  assumes "distinct (column_names X)"
  shows "dm_transform (dm_fit t X) X
           = Inr (filter (\<lambda>(name, col). \<not> nan_gt (mean_bool (isna_col col)) t) X)"
proof -
  let ?D = "cols_to_drop (dm_fit t X)"
  have sub: "\<not> (\<exists>l\<in>set ?D. l \<notin> set (column_names X))"
    unfolding dm_cols_to_drop column_names_def by auto
  have "filter (\<lambda>(name, col). name \<notin> set ?D) X
       = filter (\<lambda>(name, col). \<not> nan_gt (mean_bool (isna_col col)) t) X"
  proof (rule filter_cong[OF refl])
    fix x assume x: "x \<in> set X"
    obtain name col where nc: "x = (name, col)" by (rule prod.exhaust)
    show "(case x of (name, col) \<Rightarrow> name \<notin> set ?D)
        = (case x of (name, col) \<Rightarrow> \<not> nan_gt (mean_bool (isna_col col)) t)"
      using dm_dropped_iff[OF assms, of name col t] x unfolding nc by simp
  qed
  thus ?thesis unfolding dm_transform_def drop_columns_def using sub by simp
qed

subsection \<open>Claim about DropMissing\<close>

text \<open>
  C8. For a table \<open>X\<close> (distinct column names) and a configured threshold \<open>t\<close>,
  \<open>DropMissing.fit(X).transform(X)\<close> returns \<open>X\<close> without exactly the columns whose share of
  missing values is greater than \<open>t\<close> (a column of a table without rows has the share
  NaN and stays); the names removed are \<open>cols_to_drop\<close>, and none of them is a column of
  the output.
\<close>

theorem drop_missing_fit_transform:
  assumes "distinct (column_names X)"
  shows "dm_transform (dm_fit t X) X
           = Inr (filter (\<lambda>(name, col). \<not> nan_gt (mean_bool (isna_col col)) t) X)
       \<and> cols_to_drop (dm_fit t X)
           = column_names (filter (\<lambda>(name, col). nan_gt (mean_bool (isna_col col)) t) X)
       \<and> set (column_names (filter (\<lambda>(name, col). \<not> nan_gt (mean_bool (isna_col col)) t) X))
           \<inter> set (cols_to_drop (dm_fit t X)) = {}
       \<and> set (column_names (filter (\<lambda>(name, col). \<not> nan_gt (mean_bool (isna_col col)) t) X))
           \<union> set (cols_to_drop (dm_fit t X)) = set (column_names X)"
proof -
  let ?Y = "filter (\<lambda>(name, col). \<not> nan_gt (mean_bool (isna_col col)) t) X"
  have 1: "dm_transform (dm_fit t X) X = Inr ?Y" using dm_fit_transform[OF assms] .
  have 2: "cols_to_drop (dm_fit t X)
      = column_names (filter (\<lambda>(name, col). nan_gt (mean_bool (isna_col col)) t) X)"
    by (simp add: dm_cols_to_drop column_names_def)
  have 3: "set (column_names ?Y) \<inter> set (cols_to_drop (dm_fit t X)) = {}"
  proof (rule ccontr)
    assume "set (column_names ?Y) \<inter> set (cols_to_drop (dm_fit t X)) \<noteq> {}"
    then obtain name where n: "name \<in> set (column_names ?Y)"
        "name \<in> set (cols_to_drop (dm_fit t X))" by blast
    then obtain col where c: "(name, col) \<in> set X" "\<not> nan_gt (mean_bool (isna_col col)) t"
      unfolding column_names_def by auto
    thus False using dm_dropped_iff[OF assms c(1), of t] n(2) by simp
  qed
  have 4: "set (column_names ?Y) \<union> set (cols_to_drop (dm_fit t X)) = set (column_names X)"
    unfolding 2 column_names_def by (auto simp: image_iff) 
  show ?thesis using 1 2 3 4 by blast
qed

theorem drop_missing_fit_transform_witness:
  "distinct (column_names [(''a'', FloatCol [Some 1, None, None]), (''b'', IntCol [1, 2, 3]),
                            (''c'', ObjCol [None, Some ''x'', Some ''y''])])
   \<and> dm_transform
        (dm_fit (1 / 2) [(''a'', FloatCol [Some 1, None, None]), (''b'', IntCol [1, 2, 3]),
                         (''c'', ObjCol [None, Some ''x'', Some ''y''])])
        [(''a'', FloatCol [Some 1, None, None]), (''b'', IntCol [1, 2, 3]),
         (''c'', ObjCol [None, Some ''x'', Some ''y''])]
      = Inr [(''b'', IntCol [1, 2, 3]), (''c'', ObjCol [None, Some ''x'', Some ''y''])]
   \<and> cols_to_drop
        (dm_fit (1 / 2) [(''a'', FloatCol [Some 1, None, None]), (''b'', IntCol [1, 2, 3]),
                         (''c'', ObjCol [None, Some ''x'', Some ''y''])])
      = [''a'']"
proof -
  have d: "distinct (column_names [(''a'', FloatCol [Some 1, None, None]), (''b'', IntCol [1, 2, 3]),
                            (''c'', ObjCol [None, Some ''x'', Some ''y''])])"
    by (simp add: column_names_def)
  show ?thesis
    using drop_missing_fit_transform[OF d, of "1 / 2"] d
    by (simp add: column_names_def mean_bool_def nan_gt_def)
qed

section \<open>Winsorizer\<close>

subsection \<open>Quantiles are monotone in the percentile\<close>

lemma quantile_mono:
  assumes ne: "vals \<noteq> []" and q: "0 \<le> q1" "q1 \<le> q2" "q2 \<le> 1"
  shows "\<exists>a b. quantile vals q1 = Some a \<and> quantile vals q2 = Some b \<and> a \<le> b"
proof -
  define s where "s = sort vals"
  define m where "m = length s - 1"
  have srt: "sorted s" and len: "length s = m + 1"
    using ne by (simp_all add: s_def m_def Suc_leI)
  define f where "f = (\<lambda>q :: rat. s ! nat \<lfloor>q * of_nat m\<rfloor>
      + (q * of_nat m - of_int \<lfloor>q * of_nat m\<rfloor>)
        * (s ! min (nat \<lfloor>q * of_nat m\<rfloor> + 1) m - s ! nat \<lfloor>q * of_nat m\<rfloor>))"
  have qf: "quantile vals q = Some (f q)" for q
    using ne by (simp add: quantile_def Let_def f_def s_def[symmetric] m_def)
  have nth_mono: "s ! i \<le> s ! j" if "i \<le> j" "j \<le> m" for i j
    using srt that len by (intro sorted_nth_mono) simp_all
  have bounds: "nat \<lfloor>q * of_nat m\<rfloor> \<le> m \<and> s ! nat \<lfloor>q * of_nat m\<rfloor> \<le> f q
      \<and> f q \<le> s ! min (nat \<lfloor>q * of_nat m\<rfloor> + 1) m" if "0 \<le> q" "q \<le> 1" for q
  proof -
    let ?idx = "q * of_nat m" and ?lo = "nat \<lfloor>q * of_nat m\<rfloor>"
    let ?g = "?idx - of_int \<lfloor>?idx\<rfloor>"
    have "?idx \<le> 1 * of_nat m" using that by (intro mult_right_mono) simp_all
    hence "\<lfloor>?idx\<rfloor> \<le> \<lfloor>(of_nat m :: rat)\<rfloor>" by (intro floor_mono) simp
    hence lo: "?lo \<le> m" by simp
    let ?d = "s ! min (?lo + 1) m - s ! ?lo"
    have d: "0 \<le> ?d" using nth_mono[of ?lo "min (?lo + 1) m"] lo by simp
    have g: "0 \<le> ?g" "?g \<le> 1" by linarith+
    have "0 \<le> ?g * ?d" using g(1) d by simp
    moreover have "?g * ?d \<le> 1 * ?d" using g(2) d by (intro mult_right_mono)
    ultimately show ?thesis using lo unfolding f_def by simp
  qed
  have "f q1 \<le> f q2"
  proof -
    let ?i1 = "q1 * of_nat m" and ?i2 = "q2 * of_nat m"
    have i12: "?i1 \<le> ?i2" using q(2) by (intro mult_right_mono) simp_all
    have i1: "0 \<le> ?i1" using q(1) by simp
    have fl: "\<lfloor>?i1\<rfloor> \<le> \<lfloor>?i2\<rfloor>" using i12 by (rule floor_mono)
    have b1: "nat \<lfloor>?i1\<rfloor> \<le> m" "s ! nat \<lfloor>?i1\<rfloor> \<le> f q1" "f q1 \<le> s ! min (nat \<lfloor>?i1\<rfloor> + 1) m"
      using bounds[of q1] q by simp_all
    have b2: "nat \<lfloor>?i2\<rfloor> \<le> m" "s ! nat \<lfloor>?i2\<rfloor> \<le> f q2" "f q2 \<le> s ! min (nat \<lfloor>?i2\<rfloor> + 1) m"
      using bounds[of q2] q by simp_all
    show ?thesis
    proof (cases "\<lfloor>?i1\<rfloor> = \<lfloor>?i2\<rfloor>")
      case True
      let ?d = "s ! min (nat \<lfloor>?i2\<rfloor> + 1) m - s ! nat \<lfloor>?i2\<rfloor>"
      have d: "0 \<le> ?d"
        using nth_mono[of "nat \<lfloor>?i2\<rfloor>" "min (nat \<lfloor>?i2\<rfloor> + 1) m"] b2(1) by simp
      have "(?i1 - of_int \<lfloor>?i2\<rfloor>) * ?d \<le> (?i2 - of_int \<lfloor>?i2\<rfloor>) * ?d"
        using i12 d by (intro mult_right_mono) simp_all
      thus ?thesis unfolding f_def True by simp
    next
      case False
      hence "\<lfloor>?i1\<rfloor> < \<lfloor>?i2\<rfloor>" using fl by simp
      moreover have "0 \<le> \<lfloor>?i1\<rfloor>" using i1 by simp
      ultimately have "nat \<lfloor>?i1\<rfloor> + 1 \<le> nat \<lfloor>?i2\<rfloor>" by arith
      hence "min (nat \<lfloor>?i1\<rfloor> + 1) m \<le> nat \<lfloor>?i2\<rfloor>" by simp
      hence "s ! min (nat \<lfloor>?i1\<rfloor> + 1) m \<le> s ! nat \<lfloor>?i2\<rfloor>" using b2(1) by (rule nth_mono)
      thus ?thesis using b1(3) b2(2) by simp
    qed
  qed
  thus ?thesis using qf by simp
qed

lemma quantile_None: "quantile [] q = None"
  by (simp add: quantile_def)

subsection \<open>What trim_vec returns\<close>

lemma trim_float_cell:
  "trim (float_cell x) (bound low) (bound high)
     = (case x of None \<Rightarrow> NaN | Some v \<Rightarrow> FloatV (clip low high v))"
  by (cases x; cases low; cases high) (simp_all add: trim_def s_lt_def s_gt_def clip_def Let_def)

lemma vectorize_out_float:
  assumes "outs \<noteq> []" "\<forall>i. hd outs \<noteq> IntV i"
  shows "vectorize_out outs = Inr (FloatCol (map sval outs))"
  using assms by (cases "hd outs") (simp_all add: vectorize_out_def)

lemma trim_vec_float:
  assumes "xs \<noteq> []"
  shows "trim_vec (FloatCol xs) low high = Inr (FloatCol (map (map_option (clip low high)) xs))"
proof -
  let ?outs = "map (\<lambda>x. trim (float_cell x) (bound low) (bound high)) xs"
  have "hd ?outs = trim (float_cell (hd xs)) (bound low) (bound high)"
    using assms by (simp add: hd_map)
  hence "\<forall>i. hd ?outs \<noteq> IntV i" by (simp add: trim_float_cell split: option.splits)
  hence "vectorize_out ?outs = Inr (FloatCol (map sval ?outs))"
    using assms by (intro vectorize_out_float) simp_all
  moreover have "map sval ?outs = map (map_option (clip low high)) xs"
    by (rule map_cong[OF refl, THEN trans[OF map_map]])
       (simp add: trim_float_cell split: option.splits)
  ultimately show ?thesis using assms by simp
qed

lemma clip_bounds:
  assumes "l \<le> h"
  shows "l \<le> clip (Some l) (Some h) v" "clip (Some l) (Some h) v \<le> h"
    "clip (Some l) (Some h) v = (if v < l then l else if v > h then h else v)"
  using assms by (auto simp: clip_def Let_def)

lemma trim_int_not_NaN: "trim (IntV x) (bound low) (bound high) \<noteq> NaN"
  by (cases low; cases high) (auto simp: trim_def s_lt_def s_gt_def Let_def)

lemma collect_cast_int:
  assumes "NaN \<notin> set outs"
  shows "\<exists>ints. collect cast_int outs = Inr ints"
  using assms
proof (induction outs)
  case Nil
  show ?case by simp
next
  case (Cons a outs)
  then obtain ints where "collect cast_int outs = Inr ints" by auto
  thus ?case using Cons.prems by (cases a) simp_all
qed

lemma trim_vec_int:
  assumes "xs \<noteq> []"
  shows "\<exists>c. trim_vec (IntCol xs) low high = Inr c"
proof -
  let ?outs = "map (\<lambda>x. trim (IntV x) (bound low) (bound high)) xs"
  have "NaN \<notin> set ?outs" using trim_int_not_NaN by (auto simp: image_iff) metis
  then obtain ints where "collect cast_int ?outs = Inr ints" using collect_cast_int by blast
  thus ?thesis using assms by (cases "hd ?outs") (simp_all add: vectorize_out_def)
qed

lemma trim_vec_numeric:
  assumes "is_numeric_dtype c" "0 < nrows c"
  shows "\<exists>c'. trim_vec c low high = Inr c'"
proof (cases c)
  case (FloatCol xs)
  thus ?thesis using assms trim_vec_float[of xs low high] by auto
next
  case (IntCol xs)
  thus ?thesis using assms trim_vec_int[of xs low high] by auto
next
  case (ObjCol xs)
  thus ?thesis using assms by simp
qed

subsection \<open>Fitting, and the loop of transform\<close>

lemma fit_columns_ok:
  assumes "0 \<le> l" "l \<le> 1" "0 \<le> h" "h \<le> 1"
  shows "fit_columns (l, h) cols
       = Inr (map (\<lambda>(n, c). (n, quantile (non_missing c) l, quantile (non_missing c) h)) cols)"
  using assms by (induction cols) (auto simp: series_quantile_def)

lemma ws_fit_ok:
  assumes "resolve_limits cfg = (l, h)" "0 \<le> l" "l \<le> 1" "0 \<le> h" "h \<le> 1"
  shows "ws_fit cfg X =
     Inr \<lparr>limits = (l, h),
          columns_fit = map fst (filter (\<lambda>(c, col). is_numeric_dtype col) X),
          threshold_dict_fit =
            map (\<lambda>(n, c). (n, quantile (non_missing c) l, quantile (non_missing c) h))
              (filter (\<lambda>(c, col). is_numeric_dtype col) X)\<rparr>"
  by (simp add: ws_fit_def assms(1) fit_columns_ok[OF assms(2-5)] Let_def)

lemma setitem_existing:
  assumes "map_of T n = Some c"
  shows "setitem T n c' = map (\<lambda>(k, v). if k = n then (k, c') else (k, v)) T"
proof -
  have "n \<in> set (column_names T)" using assms unfolding column_names_def
    by (metis map_of_eq_None_iff option.distinct(1) set_map)
  thus ?thesis by (simp add: setitem_def)
qed

lemma map_of_replace_other:
  "n' \<noteq> n \<Longrightarrow> map_of (map (\<lambda>(k, v). if k = n then (k, c') else (k, v)) T) n' = map_of T n'"
  by (induction T) auto

lemma transform_loop_result:
  assumes "distinct (map fst d)"
    and "\<forall>(n, lo, hi)\<in>set d. \<exists>c. map_of T n = Some c \<and> trim_vec c lo hi = Inr (g n)"
  shows "transform_loop d T
       = Inr (map (\<lambda>(n, c). if n \<in> fst ` set d then (n, g n) else (n, c)) T)"
  using assms
proof (induction d arbitrary: T)
  case Nil
  show ?case by simp
next
  case (Cons x d)
  obtain n lo hi where x: "x = (n, lo, hi)" by (cases x) auto
  obtain c where c: "map_of T n = Some c" "trim_vec c lo hi = Inr (g n)"
    using Cons.prems(2) x by auto
  let ?T = "map (\<lambda>(k, v). if k = n then (k, g n) else (k, v)) T"
  have nd: "n \<notin> fst ` set d" "distinct (map fst d)" using Cons.prems(1) x by auto
  have pre: "\<forall>(n', lo', hi')\<in>set d. \<exists>c. map_of ?T n' = Some c \<and> trim_vec c lo' hi' = Inr (g n')"
  proof (clarify)
    fix n' lo' hi' assume m: "(n', lo', hi') \<in> set d"
    hence "n' \<noteq> n" using nd(1) by force
    hence "map_of ?T n' = map_of T n'" by (rule map_of_replace_other)
    thus "\<exists>c. map_of ?T n' = Some c \<and> trim_vec c lo' hi' = Inr (g n')"
      using Cons.prems(2) m by auto
  qed
  have "transform_loop (x # d) T = transform_loop d ?T"
    using c by (simp add: x getitem_def setitem_existing[OF c(1)])
  also have "\<dots> = Inr (map (\<lambda>(n, c). if n \<in> fst ` set d then (n, g n) else (n, c)) ?T)"
    using Cons.IH[OF nd(2) pre] .
  also have "map (\<lambda>(n, c). if n \<in> fst ` set d then (n, g n) else (n, c)) ?T
      = map (\<lambda>(n, c). if n \<in> fst ` set (x # d) then (n, g n) else (n, c)) T"
    using nd(1) by (auto simp: x)
  finally show ?case .
qed

subsection \<open>Fit and transform on the same table, for the Winsorizer\<close>

lemma ws_fit_transform_same:
  assumes dist: "distinct (column_names X)" and rows: "\<forall>c\<in>snd ` set X. 0 < nrows c"
    and lim: "resolve_limits cfg = (l, h)" "0 \<le> l" "l \<le> 1" "0 \<le> h" "h \<le> 1"
  shows "\<exists>w. ws_fit cfg X = Inr w
       \<and> threshold_dict_fit w
           = map (\<lambda>(n, c). (n, quantile (non_missing c) l, quantile (non_missing c) h))
               (filter (\<lambda>(c, col). is_numeric_dtype col) X)
       \<and> ws_transform w X
           = Inr (map (\<lambda>(n, c). if is_numeric_dtype c then (n, trimmed l h c) else (n, c)) X)"
proof -
  let ?num = "filter (\<lambda>(c, col). is_numeric_dtype col) X"
  let ?d = "map (\<lambda>(n, c). (n, quantile (non_missing c) l, quantile (non_missing c) h)) ?num"
  let ?w = "\<lparr>limits = (l, h), columns_fit = map fst ?num, threshold_dict_fit = ?d\<rparr>"
  define g where "g = (\<lambda>n. trimmed l h (the (map_of X n)))"
  have dX: "distinct (map fst X)" using dist by (simp add: column_names_def)
  have fit: "ws_fit cfg X = Inr ?w" using ws_fit_ok[OF lim] .
  have keys: "map fst ?d = map fst ?num" by (induction X) auto
  have dd: "distinct (map fst ?d)" unfolding keys using dX by (rule distinct_map_filter)
  have mem: "(n, lo, hi) \<in> set ?d \<longleftrightarrow>
      (\<exists>c. (n, c) \<in> set X \<and> is_numeric_dtype c \<and> lo = quantile (non_missing c) l
           \<and> hi = quantile (non_missing c) h)" for n lo hi
    by auto
  have pre: "\<forall>(n, lo, hi)\<in>set ?d. \<exists>c. map_of X n = Some c \<and> trim_vec c lo hi = Inr (g n)"
  proof (clarify)
    fix n lo hi assume "(n, lo, hi) \<in> set ?d"
    then obtain c where c: "(n, c) \<in> set X" "is_numeric_dtype c"
        "lo = quantile (non_missing c) l" "hi = quantile (non_missing c) h"
      unfolding mem by blast
    have m: "map_of X n = Some c" using dX c(1) by (rule map_of_is_SomeI)
    have "0 < nrows c" using rows c(1) by force
    then obtain c' where "trim_vec c lo hi = Inr c'" using trim_vec_numeric[OF c(2)] by blast
    hence "trim_vec c lo hi = Inr (g n)" by (simp add: g_def m trimmed_def c(3,4))
    thus "\<exists>c. map_of X n = Some c \<and> trim_vec c lo hi = Inr (g n)" using m by blast
  qed
  have "map (\<lambda>(n, c). if n \<in> fst ` set ?d then (n, g n) else (n, c)) X
      = map (\<lambda>(n, c). if is_numeric_dtype c then (n, trimmed l h c) else (n, c)) X"
  proof (rule map_cong[OF refl])
    fix x assume x: "x \<in> set X"
    obtain n c where nc: "x = (n, c)" by (rule prod.exhaust)
    have m: "map_of X n = Some c" using dX x unfolding nc by (rule map_of_is_SomeI)
    have "n \<in> fst ` set ?d \<longleftrightarrow> is_numeric_dtype c"
    proof
      assume "n \<in> fst ` set ?d"
      then obtain c' where c': "(n, c') \<in> set X" "is_numeric_dtype c'" by force
      have "c' = c" using distinct_names_unique[OF dX c'(1)] x nc by simp
      thus "is_numeric_dtype c" using c'(2) by simp
    next
      assume "is_numeric_dtype c"
      hence "(n, quantile (non_missing c) l, quantile (non_missing c) h) \<in> set ?d"
        unfolding mem using x nc by blast
      thus "n \<in> fst ` set ?d" by force
    qed
    thus "(case x of (n, c) \<Rightarrow> if n \<in> fst ` set ?d then (n, g n) else (n, c))
        = (case x of (n, c) \<Rightarrow> if is_numeric_dtype c then (n, trimmed l h c) else (n, c))"
      unfolding nc by (simp add: g_def m)
  qed
  hence "ws_transform ?w X
      = Inr (map (\<lambda>(n, c). if is_numeric_dtype c then (n, trimmed l h c) else (n, c)) X)"
    using transform_loop_result[OF dd pre] by (simp add: ws_transform_def)
  thus ?thesis using fit by simp
qed

lemma trimmed_float:
  assumes "xs \<noteq> []"
  shows "trimmed l h (FloatCol xs)
       = FloatCol (map (map_option (clip (quantile (non_missing (FloatCol xs)) l)
                                         (quantile (non_missing (FloatCol xs)) h))) xs)"
  unfolding trimmed_def trim_vec_float[OF assms] by simp

subsection \<open>Claim about the Winsorizer's bounds\<close>

text \<open>
  C7, as the specification states it, fails: the limits are not checked. The single
  float 0.75 is read as the pair \<open>(0.75, 0.25)\<close>; on the column 1, 2, 3, 4, 5 the fitted
  bounds are low = 4 and high = 2, and \<open>transform\<close> turns every value into 2, which is
  below low.
\<close>

theorem winsorizer_bounds_counterexample:
  "ws_fit (Frac (3 / 4)) [(''a'', FloatCol [Some 1, Some 2, Some 3, Some 4, Some 5])]
     = Inr \<lparr>limits = (3 / 4, 1 / 4), columns_fit = [''a''],
            threshold_dict_fit = [(''a'', Some 4, Some 2)]\<rparr>
   \<and> ws_transform \<lparr>limits = (3 / 4, 1 / 4), columns_fit = [''a''],
                    threshold_dict_fit = [(''a'', Some 4, Some 2)]\<rparr>
        [(''a'', FloatCol [Some 1, Some 2, Some 3, Some 4, Some 5])]
     = Inr [(''a'', FloatCol [Some 2, Some 2, Some 2, Some 2, Some 2])]"
  by code_simp

text \<open>
  C7, amended. For limits \<open>0 \<le> l \<le> h \<le> 1\<close> and a table with distinct column names and
  at least one row, \<open>fit(X)\<close> and \<open>transform(X)\<close> return; the output has the columns of
  \<open>X\<close> in the same order; every object column is identical to the input; in every float
  column a missing entry stays missing and every other value is clipped into the
  column's fitted \<open>[low, high]\<close>. Nothing is stated about int64 columns.
\<close>

theorem winsorizer_bounds:
  assumes "distinct (column_names X)" and "nonempty_rows X"
    and "resolve_limits cfg = (l, h)" and "0 \<le> l" and "l \<le> h" and "h \<le> 1"
  shows "\<exists>w Y. ws_fit cfg X = Inr w \<and> ws_transform w X = Inr Y
       \<and> column_names Y = column_names X
       \<and> (\<forall>name xs. (name, ObjCol xs) \<in> set X \<longrightarrow> (name, ObjCol xs) \<in> set Y)
       \<and> (\<forall>name xs. (name, FloatCol xs) \<in> set X \<longrightarrow>
            (\<exists>low high ys. (name, low, high) \<in> set (threshold_dict_fit w)
               \<and> (name, FloatCol ys) \<in> set Y \<and> length ys = length xs
               \<and> (\<forall>j<length xs.
                     case xs ! j of
                       None \<Rightarrow> ys ! j = None
                     | Some v \<Rightarrow>
                         \<exists>lo hi y. low = Some lo \<and> high = Some hi \<and> ys ! j = Some y
                           \<and> lo \<le> y \<and> y \<le> hi
                           \<and> y = (if v < lo then lo else if v > hi then hi else v))))"
proof -
  have rows: "\<forall>c\<in>snd ` set X. 0 < nrows c"
    using assms(2) by (auto simp: nonempty_rows_def list_all_iff)
  have l1: "l \<le> 1" and h0: "0 \<le> h" using assms(4,5,6) by simp_all
  let ?Y = "map (\<lambda>(n, c). if is_numeric_dtype c then (n, trimmed l h c) else (n, c)) X"
  obtain w where w: "ws_fit cfg X = Inr w"
      "threshold_dict_fit w
         = map (\<lambda>(n, c). (n, quantile (non_missing c) l, quantile (non_missing c) h))
             (filter (\<lambda>(c, col). is_numeric_dtype col) X)"
      "ws_transform w X = Inr ?Y"
    using ws_fit_transform_same[OF assms(1) rows assms(3,4) l1 h0 assms(6)] by blast
  have names: "column_names ?Y = column_names X"
    unfolding column_names_def by (induction X) auto
  have obj: "(name, ObjCol xs) \<in> set ?Y" if "(name, ObjCol xs) \<in> set X" for name xs
  proof -
    have "(case (name, ObjCol xs) of (n, c) \<Rightarrow>
             if is_numeric_dtype c then (n, trimmed l h c) else (n, c)) \<in> set ?Y"
      using that unfolding set_map by (rule imageI)
    thus ?thesis by simp
  qed
  have flt: "\<exists>low high ys. (name, low, high) \<in> set (threshold_dict_fit w)
               \<and> (name, FloatCol ys) \<in> set ?Y \<and> length ys = length xs
               \<and> (\<forall>j<length xs.
                     case xs ! j of
                       None \<Rightarrow> ys ! j = None
                     | Some v \<Rightarrow>
                         \<exists>lo hi y. low = Some lo \<and> high = Some hi \<and> ys ! j = Some y
                           \<and> lo \<le> y \<and> y \<le> hi
                           \<and> y = (if v < lo then lo else if v > hi then hi else v))"
    if mem: "(name, FloatCol xs) \<in> set X" for name xs
  proof -
    let ?low = "quantile (non_missing (FloatCol xs)) l"
    let ?high = "quantile (non_missing (FloatCol xs)) h"
    let ?ys = "map (map_option (clip ?low ?high)) xs"
    have ne: "xs \<noteq> []" using rows mem by force
    have "(case (name, FloatCol xs) of (n, c) \<Rightarrow> (n, quantile (non_missing c) l,
              quantile (non_missing c) h))
          \<in> set (threshold_dict_fit w)"
      unfolding w(2) set_map using mem by (intro imageI) simp
    hence 1: "(name, ?low, ?high) \<in> set (threshold_dict_fit w)" by simp
    have "(case (name, FloatCol xs) of (n, c) \<Rightarrow>
             if is_numeric_dtype c then (n, trimmed l h c) else (n, c)) \<in> set ?Y"
      using mem unfolding set_map by (rule imageI)
    hence 2: "(name, FloatCol ?ys) \<in> set ?Y" by (simp add: trimmed_float[OF ne])
    have 3: "case xs ! j of
               None \<Rightarrow> ?ys ! j = None
             | Some v \<Rightarrow>
                 \<exists>lo hi y. ?low = Some lo \<and> ?high = Some hi \<and> ?ys ! j = Some y
                   \<and> lo \<le> y \<and> y \<le> hi
                   \<and> y = (if v < lo then lo else if v > hi then hi else v)"
      if j: "j < length xs" for j
    proof (cases "xs ! j")
      case None
      thus ?thesis using j by simp
    next
      case (Some v)
      hence "Some v \<in> set xs" using j by (metis nth_mem)
      hence "non_missing (FloatCol xs) \<noteq> []" by (auto simp: filter_empty_conv)
      then obtain a b where ab: "?low = Some a" "?high = Some b" "a \<le> b"
        using quantile_mono[OF _ assms(4,5,6)] by blast
      have "?ys ! j = Some (clip ?low ?high v)" using j Some by (simp del: non_missing.simps)
      hence "?ys ! j = Some (clip (Some a) (Some b) v)" unfolding ab .
      thus ?thesis unfolding Some ab using clip_bounds[OF ab(3), of v]
        by (simp del: non_missing.simps)
    qed
    show ?thesis using 1 2 3 by (intro exI[of _ ?low] exI[of _ ?high] exI[of _ ?ys]) simp
  qed
  show ?thesis
    using w(1,3) names obj flt by (intro exI[of _ w] exI[of _ ?Y]) blast
qed

theorem winsorizer_bounds_witness:
  "distinct (column_names [(''f'', FloatCol [None, Some 0, Some 4, Some 10]),
                            (''s'', ObjCol [Some ''x'', None, None, None])])
   \<and> nonempty_rows [(''f'', FloatCol [None, Some 0, Some 4, Some 10]),
                     (''s'', ObjCol [Some ''x'', None, None, None])]
   \<and> resolve_limits (Pair (1 / 4) (3 / 4)) = (1 / 4, 3 / 4)
   \<and> (0 :: rat) \<le> 1 / 4 \<and> (1 / 4 :: rat) \<le> 3 / 4 \<and> (3 / 4 :: rat) \<le> 1
   \<and> ws_fit (Pair (1 / 4) (3 / 4)) [(''f'', FloatCol [None, Some 0, Some 4, Some 10]),
                                      (''s'', ObjCol [Some ''x'', None, None, None])]
       = Inr \<lparr>limits = (1 / 4, 3 / 4), columns_fit = [''f''],
              threshold_dict_fit = [(''f'', Some 2, Some 7)]\<rparr>
   \<and> ws_transform \<lparr>limits = (1 / 4, 3 / 4), columns_fit = [''f''],
                    threshold_dict_fit = [(''f'', Some 2, Some 7)]\<rparr>
        [(''f'', FloatCol [None, Some 0, Some 4, Some 10]),
         (''s'', ObjCol [Some ''x'', None, None, None])]
       = Inr [(''f'', FloatCol [None, Some 2, Some 4, Some 7]),
              (''s'', ObjCol [Some ''x'', None, None, None])]"
proof -
  let ?X = "[(''f'', FloatCol [None, Some 0, Some 4, Some 10]),
             (''s'', ObjCol [Some ''x'', None, None, None])]"
  have d: "distinct (column_names ?X)" by (simp add: column_names_def)
  have r: "nonempty_rows ?X" by (simp add: nonempty_rows_def)
  have e1: "ws_fit (Pair (1 / 4) (3 / 4)) ?X
       = Inr \<lparr>limits = (1 / 4, 3 / 4), columns_fit = [''f''],
              threshold_dict_fit = [(''f'', Some 2, Some 7)]\<rparr>" by code_simp
  have e2: "ws_transform \<lparr>limits = (1 / 4, 3 / 4), columns_fit = [''f''],
                    threshold_dict_fit = [(''f'', Some 2, Some 7)]\<rparr> ?X
       = Inr [(''f'', FloatCol [None, Some 2, Some 4, Some 7]),
              (''s'', ObjCol [Some ''x'', None, None, None])]" by code_simp
  show ?thesis
    using winsorizer_bounds[OF d r, of "Pair (1 / 4) (3 / 4)" "1 / 4" "3 / 4"] d r e1 e2
    by simp
qed

text \<open>
  An int64 column is where the amended claim stops. \<open>np.vectorize\<close> takes the output
  dtype from the first result: when the first value lies within the bounds the output
  is int64 and the clipped values are truncated, here 3/2 to 1, below low.
\<close>

lemma winsorizer_int_column_truncated:
  "ws_fit (Pair (1 / 4) (3 / 4)) [(''a'', IntCol [2, 0, 4, 10])]
     = Inr \<lparr>limits = (1 / 4, 3 / 4), columns_fit = [''a''],
            threshold_dict_fit = [(''a'', Some (3 / 2), Some (11 / 2))]\<rparr>
   \<and> ws_transform \<lparr>limits = (1 / 4, 3 / 4), columns_fit = [''a''],
                    threshold_dict_fit = [(''a'', Some (3 / 2), Some (11 / 2))]\<rparr>
        [(''a'', IntCol [2, 0, 4, 10])]
     = Inr [(''a'', IntCol [2, 1, 4, 5])]"
  by code_simp

subsection \<open>What transform leaves alone\<close>

lemma getitem_Inr: "getitem T n = Inr c \<Longrightarrow> map_of T n = Some c"
  by (simp add: getitem_def split: option.splits)

lemma setitem_frame:
  assumes "map_of T n = Some c"
  shows "length (setitem T n c') = length T"
    and "i < length T \<Longrightarrow> fst (setitem T n c' ! i) = fst (T ! i)"
    and "i < length T \<Longrightarrow> fst (T ! i) \<noteq> n \<Longrightarrow> setitem T n c' ! i = T ! i"
  unfolding setitem_existing[OF assms] by (auto split: prod.splits)

lemma transform_loop_frame:
  assumes "transform_loop d T = Inr T'"
  shows "length T' = length T
       \<and> (\<forall>i<length T. fst (T' ! i) = fst (T ! i)
             \<and> (fst (T ! i) \<notin> fst ` set d \<longrightarrow> T' ! i = T ! i))"
  using assms
proof (induction d arbitrary: T)
  case Nil
  thus ?case by simp
next
  case (Cons x d)
  obtain n lo hi where x: "x = (n, lo, hi)" by (cases x) auto
  obtain c c' where c: "getitem T n = Inr c" "trim_vec c lo hi = Inr c'"
      "transform_loop d (setitem T n c') = Inr T'"
    using Cons.prems unfolding x by (auto split: sum.splits)
  note m = getitem_Inr[OF c(1)]
  note ih = Cons.IH[OF c(3)]
  note sf = setitem_frame[OF m, where c' = c']
  show ?case
  proof (intro conjI allI impI)
    show "length T' = length T" using ih sf(1) by simp
  next
    fix i assume i: "i < length T"
    hence i': "i < length (setitem T n c')" using sf(1) by simp
    show "fst (T' ! i) = fst (T ! i)" using ih i' sf(2)[OF i] by simp
  next
    fix i assume i: "i < length T" and a: "fst (T ! i) \<notin> fst ` set (x # d)"
    hence i': "i < length (setitem T n c')" using sf(1) by simp
    have ne: "fst (T ! i) \<noteq> n" and nd: "fst (T ! i) \<notin> fst ` set d" using a x by auto
    have "fst (setitem T n c' ! i) \<notin> fst ` set d" using sf(2)[OF i] nd by simp
    hence "T' ! i = setitem T n c' ! i" using ih i' by blast
    thus "T' ! i = T ! i" using sf(3)[OF i ne] by simp
  qed
qed

lemma transform_loop_heap_result:
  "case transform_loop_heap d h r of (h', res) \<Rightarrow>
     next_ref h' = next_ref h \<and> (\<forall>r'. r' \<noteq> r \<longrightarrow> objs h' r' = objs h r')
     \<and> (case transform_loop d (objs h r) of
           Inl e \<Rightarrow> res = Some e
         | Inr T \<Rightarrow> res = None \<and> objs h' r = T)"
proof (induction d arbitrary: h)
  case Nil
  show ?case by simp
next
  case (Cons x d)
  obtain n lo hi where x: "x = (n, lo, hi)" by (cases x) auto
  show ?case
  proof (cases "getitem (objs h r) n")
    case (Inl e)
    thus ?thesis by (simp add: x)
  next
    case (Inr c)
    show ?thesis
    proof (cases "trim_vec c lo hi")
      case (Inl e)
      thus ?thesis using Inr by (simp add: x)
    next
      case c': (Inr c')
      let ?h = "h\<lparr>objs := (objs h)(r := setitem (objs h r) n c')\<rparr>"
      have 1: "transform_loop_heap (x # d) h r = transform_loop_heap d ?h r"
        using Inr c' by (simp add: x)
      have 2: "transform_loop (x # d) (objs h r) = transform_loop d (objs ?h r)"
        using Inr c' by (simp add: x)
      show ?thesis using Cons.IH[of ?h] unfolding 1 2 by (auto split: prod.splits sum.splits)
    qed
  qed
qed

subsection \<open>Claim about the frame of transform\<close>

text \<open>
  C10. \<open>Winsorizer.transform\<close> does not mutate its input: every object that exists when
  it is called, the input \<open>X\<close> among them, is the same afterwards, whether \<open>transform\<close>
  returns or raises. When it returns, the result is a new object; it has the columns of
  the input in the same order, and every column whose name is not a key of the fitted
  threshold dictionary is identical to the input's.
\<close>

theorem winsorizer_transform_frame:
  "case ws_transform_heap self h X of
     (h', res) \<Rightarrow>
       (\<forall>r<next_ref h. objs h' r = objs h r)
     \<and> (X < next_ref h \<longrightarrow> objs h' X = objs h X)
     \<and> (case res of
           Inl e \<Rightarrow> ws_transform self (objs h X) = Inl e
         | Inr X_t \<Rightarrow>
             next_ref h \<le> X_t \<and> X_t < next_ref h'
           \<and> ws_transform self (objs h X) = Inr (objs h' X_t)
           \<and> length (objs h' X_t) = length (objs h X)
           \<and> (\<forall>i<length (objs h X).
                  fst (objs h' X_t ! i) = fst (objs h X ! i)
                \<and> (fst (objs h X ! i) \<notin> fst ` set (threshold_dict_fit self)
                     \<longrightarrow> objs h' X_t ! i = objs h X ! i)))"
proof -
  let ?T = "objs h X"
  let ?h1 = "h\<lparr>objs := (objs h)(next_ref h := ?T), next_ref := next_ref h + 1\<rparr>"
  let ?h2 = "?h1\<lparr>objs := (objs ?h1)(next_ref ?h1 := ?T), next_ref := next_ref ?h1 + 1\<rparr>"
  let ?r = "next_ref h + 1"
  obtain h' res where L: "transform_loop_heap (threshold_dict_fit self) ?h2 ?r = (h', res)"
    by (cases "transform_loop_heap (threshold_dict_fit self) ?h2 ?r") auto
  have W: "ws_transform_heap self h X
      = (case res of Some e \<Rightarrow> (h', Inl e) | None \<Rightarrow> (h', Inr ?r))"
    using L by (simp add: ws_transform_heap_def alloc_def Let_def split: option.splits)
  have R: "next_ref h' = next_ref h + 2" "\<forall>r'. r' \<noteq> ?r \<longrightarrow> objs h' r' = objs ?h2 r'"
      "case transform_loop (threshold_dict_fit self) ?T of
         Inl e \<Rightarrow> res = Some e
       | Inr T \<Rightarrow> res = None \<and> objs h' ?r = T"
    using transform_loop_heap_result[where d = "threshold_dict_fit self" and h = ?h2 and r = ?r]
    unfolding L by simp_all
  have old: "\<forall>r<next_ref h. objs h' r = objs h r" using R(2) by simp
  show ?thesis
  proof (cases "transform_loop (threshold_dict_fit self) ?T")
    case (Inl e)
    hence "res = Some e" using R(3) by simp
    thus ?thesis unfolding W using old Inl by (simp add: ws_transform_def)
  next
    case (Inr T)
    hence res: "res = None" "objs h' ?r = T" using R(3) by simp_all
    note fr = transform_loop_frame[OF Inr]
    show ?thesis unfolding W using old Inr res R(1) fr by (simp add: ws_transform_def)
  qed
qed

theorem winsorizer_transform_frame_witness:
  "snd (ws_transform_heap
          \<lparr>limits = (1 / 4, 3 / 4), columns_fit = [''f''],
             threshold_dict_fit = [(''f'', Some 2, Some 7)]\<rparr>
          \<lparr>objs = (\<lambda>_. [])(0 := [(''f'', FloatCol [None, Some 0, Some 4, Some 10]),
                                   (''s'', ObjCol [Some ''x'', None, None, None])]),
             next_ref = 1\<rparr> 0) = Inr 2
   \<and> objs (fst (ws_transform_heap
          \<lparr>limits = (1 / 4, 3 / 4), columns_fit = [''f''],
             threshold_dict_fit = [(''f'', Some 2, Some 7)]\<rparr>
          \<lparr>objs = (\<lambda>_. [])(0 := [(''f'', FloatCol [None, Some 0, Some 4, Some 10]),
                                   (''s'', ObjCol [Some ''x'', None, None, None])]),
             next_ref = 1\<rparr> 0)) 0
       = [(''f'', FloatCol [None, Some 0, Some 4, Some 10]),
          (''s'', ObjCol [Some ''x'', None, None, None])]
   \<and> objs (fst (ws_transform_heap
          \<lparr>limits = (1 / 4, 3 / 4), columns_fit = [''f''],
             threshold_dict_fit = [(''f'', Some 2, Some 7)]\<rparr>
          \<lparr>objs = (\<lambda>_. [])(0 := [(''f'', FloatCol [None, Some 0, Some 4, Some 10]),
                                   (''s'', ObjCol [Some ''x'', None, None, None])]),
             next_ref = 1\<rparr> 0)) 2
       = [(''f'', FloatCol [None, Some 2, Some 4, Some 7]),
          (''s'', ObjCol [Some ''x'', None, None, None])]"
proof -
  let ?w = "\<lparr>limits = (1 / 4, 3 / 4), columns_fit = [''f''],
             threshold_dict_fit = [(''f'', Some 2, Some 7)]\<rparr>"
  let ?X = "[(''f'', FloatCol [None, Some 0, Some 4, Some 10]),
             (''s'', ObjCol [Some ''x'', None, None, None])]"
  let ?h = "\<lparr>objs = (\<lambda>_. [])(0 := ?X), next_ref = 1\<rparr>"
  have t: "ws_transform ?w ?X = Inr [(''f'', FloatCol [None, Some 2, Some 4, Some 7]),
          (''s'', ObjCol [Some ''x'', None, None, None])]" by code_simp
  obtain h' res where e: "ws_transform_heap ?w ?h 0 = (h', res)"
    by (cases "ws_transform_heap ?w ?h 0") auto
  have f: "(\<forall>r<next_ref ?h. objs h' r = objs ?h r)
     \<and> (case res of
           Inl e \<Rightarrow> ws_transform ?w (objs ?h 0) = Inl e
         | Inr X_t \<Rightarrow>
             next_ref ?h \<le> X_t \<and> X_t < next_ref h'
           \<and> ws_transform ?w (objs ?h 0) = Inr (objs h' X_t))"
    using winsorizer_transform_frame[where self = ?w and h = ?h and X = 0] unfolding e
    by (auto split: sum.splits)
  have n: "next_ref h' = 3" and r: "res = Inr 2"
    using e by (auto simp add: ws_transform_heap_def alloc_def Let_def trim_def s_lt_def s_gt_def
        getitem_def setitem_def column_names_def vectorize_out_def numeral_2_eq_2 numeral_3_eq_3
        split: prod.splits option.splits)
  show ?thesis unfolding e using f t r by simp
qed

section \<open>Loading a model\<close>

subsection \<open>The last component of a path\<close>




subsection \<open>Claim about the third and the last branch of \<open>load_model\<close>\<close>




end
